theory Spec2Isabelle
  imports Complex_Main
begin

section \<open>Grid and configuration model (src/src/App.tsx, lines 3-45)\<close>

text \<open>
  \<^verbatim>\<open>type Cell = 0 | 1 | 2 | 3 | 4\<close> with the constants EMPTY = 0, WALL = 1, AST = 2,
  PROBE = 3 and DOCK = 4. A grid is an array of rows; the rows need not have one length
  (the type \<^verbatim>\<open>Cell[][]\<close> does not say so), hence a read \<^verbatim>\<open>g[r][c]\<close> may be
  \<^verbatim>\<open>undefined\<close>: \<open>cellAt\<close> returns \<open>None\<close> there. Coordinates are integers, since
  the code computes \<^verbatim>\<open>pr + dir.dr\<close> before it tests the bounds.
\<close>

datatype cell = EMPTY | WALL | AST | PROBE | DOCK

type_synonym grid = "cell list list"

type_synonym pos = "int \<times> int"

text \<open>\<^verbatim>\<open>g[0].length\<close>; the code evaluates it only after \<^verbatim>\<open>r < g.length\<close> held for
  some \<open>r\<close>, so never on the empty grid.\<close>

definition cols :: "grid \<Rightarrow> nat" where
  "cols g = (case g of [] \<Rightarrow> 0 | row0 # _ \<Rightarrow> length row0)"

text \<open>The read \<^verbatim>\<open>g[r][c]\<close> for a row index in range.\<close>

definition cellAt :: "grid \<Rightarrow> int \<Rightarrow> int \<Rightarrow> cell option" where
  "cellAt g r c =
     (if 0 \<le> r \<and> r < int (length g) \<and> 0 \<le> c \<and> c < int (length (g ! nat r))
      then Some (g ! nat r ! nat c) else None)"

text \<open>The write \<^verbatim>\<open>ng[r][c] = v\<close>. Every write of \<open>moveGen\<close> goes to a cell that a
  read has found defined (the probe's cell, the cells of the chain and the landing cell;
  lemma \<open>moveDir_result\<close> lists them), so the array is never extended.\<close>

definition setCell :: "grid \<Rightarrow> int \<Rightarrow> int \<Rightarrow> cell \<Rightarrow> grid" where
  "setCell g r c v = g[nat r := (g ! nat r)[nat c := v]]"

definition cloneGrid :: "grid \<Rightarrow> grid" where
  "cloneGrid g = map (\<lambda>row. row) g"

text \<open>\<open>findCell\<close>: the first position in row-major order, over the rows of the grid and
  the columns of row 0, whose cell is the value looked for.\<close>

definition positions :: "grid \<Rightarrow> pos list" where
  "positions g = concat (map (\<lambda>r. map (\<lambda>c. (int r, int c)) [0..<cols g]) [0..<length g])"

definition findCell :: "grid \<Rightarrow> cell \<Rightarrow> pos option" where
  "findCell g val = find (\<lambda>(r, c). cellAt g r c = Some val) (positions g)"

datatype dir = Up | Down | Left | Right

fun dr :: "dir \<Rightarrow> int" where
  "dr Up = - 1"
| "dr Down = 1"
| "dr Left = 0"
| "dr Right = 0"

fun dc :: "dir \<Rightarrow> int" where
  "dc Up = 0"
| "dc Down = 0"
| "dc Left = - 1"
| "dc Right = 1"

definition DIRS :: "dir list" where
  "DIRS = [Up, Down, Left, Right]"

definition inBounds :: "grid \<Rightarrow> int \<Rightarrow> int \<Rightarrow> bool" where
  "inBounds g r c = (r \<ge> 0 \<and> r < int (length g) \<and> c \<ge> 0 \<and> c < int (cols g))"

section \<open>Move generator (lines 56-113)\<close>

text \<open>The \<^verbatim>\<open>while\<close> loop of lines 86-90: it collects the contiguous asteroids from
  \<open>(cr, cc)\<close> on and returns the chain with the position it stopped at.\<close>

function scanChain :: "grid \<Rightarrow> dir \<Rightarrow> pos list \<Rightarrow> int \<Rightarrow> int \<Rightarrow> pos list \<times> int \<times> int" where
  "scanChain g d chain cr cc =
     (if inBounds g cr cc \<and> cellAt g cr cc = Some AST
      then scanChain g d (chain @ [(cr, cc)]) (cr + dr d) (cc + dc d)
      else (chain, cr, cc))"
  by pat_completeness auto
termination
  by (relation "measure (\<lambda>(g, d, chain, cr, cc).
        (case d of Up \<Rightarrow> nat (cr + 1) | Down \<Rightarrow> nat (int (length g) - cr)
                 | Left \<Rightarrow> nat (cc + 1) | Right \<Rightarrow> nat (int (cols g) - cc)))")
     (auto simp: inBounds_def split: dir.splits)

declare scanChain.simps [simp del]

text \<open>The \<^verbatim>\<open>for\<close> loop of lines 100-104, from the last asteroid of the chain to the
  first: \<open>foldr\<close> applies the body to the last element first.\<close>

definition shiftChain :: "dir \<Rightarrow> pos list \<Rightarrow> grid \<Rightarrow> grid" where
  "shiftChain d chain ng =
     foldr (\<lambda>(r, c) ng. setCell (setCell ng (r + dr d) (c + dc d) AST) r c EMPTY) chain ng"

text \<open>One iteration of the loop over \<open>DIRS\<close>: the successor it pushes, or \<open>None\<close> when
  it pushes nothing.\<close>

definition moveDir :: "grid \<Rightarrow> pos \<Rightarrow> dir \<Rightarrow> grid option" where
  "moveDir g probe d =
     (case probe of (pr, pc) \<Rightarrow>
        let nr = pr + dr d; nc = pc + dc d in
        if \<not> inBounds g nr nc then None
        else let nextCell = cellAt g nr nc in
          if nextCell = Some WALL then None
          else if nextCell = Some EMPTY \<or> nextCell = Some DOCK then
            Some (setCell (setCell (cloneGrid g) pr pc EMPTY) nr nc PROBE)
          else if nextCell = Some AST then
            (case scanChain g d [] nr nc of (chain, cr, cc) \<Rightarrow>
               if \<not> inBounds g cr cc then None
               else if cellAt g cr cc \<noteq> Some EMPTY then None
               else Some (setCell (shiftChain d chain (setCell (cloneGrid g) pr pc EMPTY))
                            nr nc PROBE))
          else None)"

definition moveGen :: "grid \<Rightarrow> grid list" where
  "moveGen g =
     (case findCell g PROBE of
        None \<Rightarrow> []
      | Some probe \<Rightarrow> List.map_filter (moveDir g probe) DIRS)"

section \<open>Goal tests and heuristic (lines 115-131)\<close>

definition isGoal :: "grid \<Rightarrow> bool" where
  "isGoal g =
     (case findCell g PROBE of
        None \<Rightarrow> False
      | Some p \<Rightarrow>
          (case findCell g DOCK of
             None \<Rightarrow> False
           | Some d \<Rightarrow> fst p = fst d \<and> snd p = snd d))"

definition isAtDock :: "grid \<Rightarrow> pos option \<Rightarrow> bool" where
  "isAtDock g dockPos =
     (case dockPos of
        None \<Rightarrow> False
      | Some d \<Rightarrow>
          (case findCell g PROBE of
             None \<Rightarrow> False
           | Some p \<Rightarrow> fst p = fst d \<and> snd p = snd d))"

definition manhattan :: "pos \<Rightarrow> pos \<Rightarrow> int" where
  "manhattan a b = \<bar>fst a - fst b\<bar> + \<bar>snd a - snd b\<bar>"

section \<open>Identity keys (lines 25-27 and 298-308)\<close>

text \<open>\<^verbatim>\<open>Array.prototype.join\<close> and \<^verbatim>\<open>String.prototype.split\<close> with a separator of one
  character. A cell joins as its decimal numeral.\<close>

fun cellStr :: "cell \<Rightarrow> string" where
  "cellStr EMPTY = ''0''"
| "cellStr WALL = ''1''"
| "cellStr AST = ''2''"
| "cellStr PROBE = ''3''"
| "cellStr DOCK = ''4''"

fun joinStr :: "string \<Rightarrow> string list \<Rightarrow> string" where
  "joinStr sep [] = []"
| "joinStr sep [x] = x"
| "joinStr sep (x # y # ys) = x @ sep @ joinStr sep (y # ys)"

fun splitStr :: "char \<Rightarrow> string \<Rightarrow> string list" where
  "splitStr sep [] = [[]]"
| "splitStr sep (x # xs) =
     (if x = sep then [] # splitStr sep xs
      else (case splitStr sep xs of
              [] \<Rightarrow> [[x]]
            | y # ys \<Rightarrow> (x # y) # ys))"

definition serializeGrid :: "grid \<Rightarrow> string" where
  "serializeGrid g = joinStr ''|'' (map (\<lambda>row. joinStr '','' (map cellStr row)) g)"

text \<open>\<^verbatim>\<open>Number\<close> on the tokens that the join of a row of cells can hold: the five
  numerals, and the empty string (of an empty row), which \<^verbatim>\<open>Number\<close> reads as 0. The
  cast \<^verbatim>\<open>as Cell[]\<close> of line 302 asserts that no other token occurs; the solvers pass
  only keys built by \<open>serializeGrid\<close>.\<close>

definition numberCell :: "string \<Rightarrow> cell" where
  "numberCell tok =
     (if tok = ''1'' then WALL
      else if tok = ''2'' then AST
      else if tok = ''3'' then PROBE
      else if tok = ''4'' then DOCK
      else EMPTY)"

definition deserializeGrid :: "string \<Rightarrow> nat \<Rightarrow> nat \<Rightarrow> grid" where
  "deserializeGrid s n m =
     (let rows = splitStr (CHR ''|'') s;
          g = map (\<lambda>row. map numberCell (splitStr (CHR '','') row)) rows
      in g @ replicate (n - length g) (replicate m EMPTY))"

section \<open>Search engines (lines 139-295)\<close>

text \<open>
  The ceiling \<^verbatim>\<open>maxNodes\<close> is a \<^verbatim>\<open>number\<close>: a finite value, which need not be an
  integer nor positive, one of the two infinities, or \<^verbatim>\<open>NaN\<close>. A call that leaves it
  out runs with the default of the solver (120000, 150000 or 200000), which is one such
  value. The solvers only compare the ceiling with the counter: \<^verbatim>\<open>nodes > maxNodes\<close>.
  The counter starts at 0 and is only incremented, so it is a natural number (the
  increment of a \<^verbatim>\<open>number\<close> is exact up to \<open>2 ^ 53\<close>; the model does not follow a
  run beyond that many expansions). The comparison of an integer with a finite
  \<^verbatim>\<open>number\<close> is the comparison of the two rationals, and a comparison with
  \<^verbatim>\<open>NaN\<close> is false.
\<close>

datatype jsNumber = Num rat | PlusInfinity | MinusInfinity | NaN

fun exceeds :: "nat \<Rightarrow> jsNumber \<Rightarrow> bool" where
  "exceeds nodes (Num x) = (of_nat nodes > x)"
| "exceeds nodes PlusInfinity = False"
| "exceeds nodes MinusInfinity = True"
| "exceeds nodes NaN = False"

text \<open>
  The result object, without \<^verbatim>\<open>timeMs\<close>, which reads the clock. The parent map sends a
  key to the key it was reached from, or to \<^verbatim>\<open>null\<close> (\<open>Some None\<close>) for the start; a
  key that is absent is \<open>None\<close>.

  A solver leaves its loop in one of three ways: the \<^verbatim>\<open>return\<close> of the goal branch,
  the \<^verbatim>\<open>break\<close> of the ceiling test, or the loop condition failing on an empty
  frontier; \<open>stop\<close> records which, and \<open>NoStart\<close> is the return before the loop. The
  result object does not hold it: \<open>dfsSolve\<close>, \<open>bfsSolve\<close> and \<open>bestFirstSolve\<close> drop
  it.

  Nothing in the text of a loop bounds the number of its iterations when the ceiling test
  never holds (\<^verbatim>\<open>Infinity\<close>, \<^verbatim>\<open>NaN\<close>), so the loops are partial functions: a loop
  that would not return has the value \<open>None\<close>.
\<close>

datatype stop = NoStart | GoalFound | CeilingHit | FrontierEmpty

type_synonym parents = "string \<rightharpoonup> string option"

text \<open>Path reconstruction of \<open>dfsSolve\<close> (lines 164-171). The loop tests its key and
  the parent for truthiness, so it stops at an empty string as well as at \<^verbatim>\<open>null\<close>
  or \<^verbatim>\<open>undefined\<close>. Nothing in the loop itself bounds it: should the parent links
  form a cycle it would not return, which is the value \<open>None\<close> here.\<close>

partial_function (option) dfsPath ::
  "parents \<Rightarrow> nat \<Rightarrow> nat \<Rightarrow> string \<Rightarrow> grid list \<Rightarrow> grid list option" where
  "dfsPath parent n m cur path =
     (if cur = [] then Some path
      else (case parent cur of
              None \<Rightarrow> Some (deserializeGrid cur n m # path)
            | Some None \<Rightarrow> Some (deserializeGrid cur n m # path)
            | Some (Some p) \<Rightarrow>
                if p = [] then Some (deserializeGrid cur n m # path)
                else dfsPath parent n m p (deserializeGrid cur n m # path)))"

declare dfsPath.simps [code]

text \<open>Path reconstruction of \<open>bfsSolve\<close> (lines 209-214) and, with the same text, of
  \<open>bestFirstSolve\<close> (lines 274-279): \<^verbatim>\<open>cur = parent.get(cur) ?? null\<close> until
  \<^verbatim>\<open>cur\<close> is \<^verbatim>\<open>null\<close>.\<close>

partial_function (option) bfsPath ::
  "parents \<Rightarrow> nat \<Rightarrow> nat \<Rightarrow> string option \<Rightarrow> grid list \<Rightarrow> grid list option" where
  "bfsPath parent n m cur path =
     (case cur of
        None \<Rightarrow> Some path
      | Some k \<Rightarrow>
          bfsPath parent n m (case parent k of None \<Rightarrow> None | Some v \<Rightarrow> v)
            (deserializeGrid k n m # path))"

declare bfsPath.simps [code]

record result =
  path :: "grid list option"
  nodesExpanded :: nat
  visitedProbe :: "pos list"

definition pushProbe :: "pos list \<Rightarrow> grid \<Rightarrow> pos list" where
  "pushProbe visited g =
     (case findCell g PROBE of None \<Rightarrow> visited | Some pp \<Rightarrow> visited @ [pp])"

definition found :: "nat \<Rightarrow> pos list \<Rightarrow> grid list \<Rightarrow> stop \<times> result" where
  "found nodes visited p =
     (GoalFound, \<lparr>path = Some p, nodesExpanded = nodes, visitedProbe = visited\<rparr>)"

definition failed :: "stop \<Rightarrow> nat \<Rightarrow> pos list \<Rightarrow> stop \<times> result" where
  "failed why nodes visited =
     (why, \<lparr>path = None, nodesExpanded = nodes, visitedProbe = visited\<rparr>)"

subsection \<open>Depth-first search\<close>

text \<open>The stack is a list whose last element is the top (\<^verbatim>\<open>push\<close> and \<^verbatim>\<open>pop\<close>
  work at the end of the array). The \<^verbatim>\<open>parent\<close> field of a stack entry is never
  read, so an entry is its grid.\<close>

definition dfsPush :: "string \<Rightarrow> parents \<times> grid list \<Rightarrow> grid \<Rightarrow> parents \<times> grid list" where
  "dfsPush key ps ng =
     (case ps of (parent, stack) \<Rightarrow>
        let nk = serializeGrid ng in
        ((if parent nk = None then parent(nk \<mapsto> Some key) else parent), stack @ [ng]))"

partial_function (option) dfsLoop ::
  "grid \<Rightarrow> pos option \<Rightarrow> jsNumber \<Rightarrow> grid list \<Rightarrow> parents \<Rightarrow> string set \<Rightarrow> nat \<Rightarrow> pos list
     \<Rightarrow> (stop \<times> result) option" where
  "dfsLoop start dockPos maxNodes stack parent seen nodes visited =
     (if stack = [] then Some (failed FrontierEmpty nodes visited)
      else
        let grid = last stack; key = serializeGrid grid in
        if key \<in> seen
        then dfsLoop start dockPos maxNodes (butlast stack) parent seen nodes visited
        else
          if isGoal grid \<or> isAtDock grid dockPos
          then map_option (found (nodes + 1) (pushProbe visited grid))
                 (dfsPath parent (length start) (cols start) key [])
          else if exceeds (nodes + 1) maxNodes
          then Some (failed CeilingHit (nodes + 1) (pushProbe visited grid))
          else
            (case foldl (dfsPush key) (parent, butlast stack) (moveGen grid) of
               (parent', stack') \<Rightarrow>
                 dfsLoop start dockPos maxNodes stack' parent' (insert key seen) (nodes + 1)
                   (pushProbe visited grid)))"

declare dfsLoop.simps [code]

definition dfsSearch :: "grid \<Rightarrow> jsNumber \<Rightarrow> (stop \<times> result) option" where
  "dfsSearch start maxNodes =
     (let dockPos = findCell start DOCK; probeStart = findCell start PROBE in
      if dockPos = None \<or> probeStart = None then Some (failed NoStart 0 [])
      else dfsLoop start dockPos maxNodes [start] [serializeGrid start \<mapsto> None] {} 0 [])"

definition dfsSolve :: "grid \<Rightarrow> jsNumber \<Rightarrow> result option" where
  "dfsSolve start maxNodes = map_option snd (dfsSearch start maxNodes)"

subsection \<open>Breadth-first search\<close>

definition bfsPush ::
  "string \<Rightarrow> grid list \<times> parents \<times> string set \<Rightarrow> grid \<Rightarrow> grid list \<times> parents \<times> string set" where
  "bfsPush key qps ng =
     (case qps of (q, parent, seen) \<Rightarrow>
        let nk = serializeGrid ng in
        if nk \<notin> seen then (q @ [ng], parent(nk \<mapsto> Some key), insert nk seen)
        else (q, parent, seen))"

partial_function (option) bfsLoop ::
  "grid \<Rightarrow> pos option \<Rightarrow> jsNumber \<Rightarrow> grid list \<Rightarrow> parents \<Rightarrow> string set \<Rightarrow> nat \<Rightarrow> pos list
     \<Rightarrow> (stop \<times> result) option" where
  "bfsLoop start dockPos maxNodes q parent seen nodes visited =
     (if q = [] then Some (failed FrontierEmpty nodes visited)
      else
        let g = hd q; key = serializeGrid g in
        if isGoal g \<or> isAtDock g dockPos
        then map_option (found (nodes + 1) (pushProbe visited g))
               (bfsPath parent (length start) (cols start) (Some key) [])
        else if exceeds (nodes + 1) maxNodes
        then Some (failed CeilingHit (nodes + 1) (pushProbe visited g))
        else
          (case foldl (bfsPush key) (tl q, parent, seen) (moveGen g) of
             (q', parent', seen') \<Rightarrow>
               bfsLoop start dockPos maxNodes q' parent' seen' (nodes + 1)
                 (pushProbe visited g)))"

declare bfsLoop.simps [code]

definition bfsSearch :: "grid \<Rightarrow> jsNumber \<Rightarrow> (stop \<times> result) option" where
  "bfsSearch start maxNodes =
     (let dockPos = findCell start DOCK; probeStart = findCell start PROBE in
      if dockPos = None \<or> probeStart = None then Some (failed NoStart 0 [])
      else bfsLoop start dockPos maxNodes [start] [serializeGrid start \<mapsto> None]
             {serializeGrid start} 0 [])"

definition bfsSolve :: "grid \<Rightarrow> jsNumber \<Rightarrow> result option" where
  "bfsSolve start maxNodes = map_option snd (bfsSearch start maxNodes)"

subsection \<open>Greedy best-first search\<close>

text \<open>The priority queue is an array of entries \<^verbatim>\<open>{grid, score}\<close> that is sorted
  after every push; \<^verbatim>\<open>Array.prototype.sort\<close> is stable, as \<open>sort_key\<close> is.\<close>

definition pushPQ :: "pos \<Rightarrow> (grid \<times> int) list \<Rightarrow> grid \<Rightarrow> (grid \<times> int) list" where
  "pushPQ dockPos pq grid =
     (case findCell grid PROBE of
        None \<Rightarrow> pq
      | Some p \<Rightarrow> sort_key snd (pq @ [(grid, manhattan p dockPos)]))"

definition bestPush ::
  "pos \<Rightarrow> string \<Rightarrow> parents \<times> (grid \<times> int) list \<Rightarrow> grid \<Rightarrow> parents \<times> (grid \<times> int) list" where
  "bestPush dockPos key ps ng =
     (case ps of (parent, pq) \<Rightarrow>
        let nk = serializeGrid ng in
        ((if parent nk = None then parent(nk \<mapsto> Some key) else parent), pushPQ dockPos pq ng))"

partial_function (option) bestLoop ::
  "grid \<Rightarrow> pos \<Rightarrow> jsNumber \<Rightarrow> (grid \<times> int) list \<Rightarrow> parents \<Rightarrow> string set \<Rightarrow> nat \<Rightarrow> pos list
     \<Rightarrow> (stop \<times> result) option" where
  "bestLoop start dockPos maxNodes pq parent seen nodes visited =
     (if pq = [] then Some (failed FrontierEmpty nodes visited)
      else
        let grid = fst (hd pq); key = serializeGrid grid in
        if key \<in> seen
        then bestLoop start dockPos maxNodes (tl pq) parent seen nodes visited
        else
          if isGoal grid \<or> isAtDock grid (Some dockPos)
          then map_option (found (nodes + 1) (pushProbe visited grid))
                 (bfsPath parent (length start) (cols start) (Some key) [])
          else if exceeds (nodes + 1) maxNodes
          then Some (failed CeilingHit (nodes + 1) (pushProbe visited grid))
          else
            (case foldl (bestPush dockPos key) (parent, tl pq) (moveGen grid) of
               (parent', pq') \<Rightarrow>
                 bestLoop start dockPos maxNodes pq' parent' (insert key seen) (nodes + 1)
                   (pushProbe visited grid)))"

declare bestLoop.simps [code]

definition bestFirstSearch :: "grid \<Rightarrow> jsNumber \<Rightarrow> (stop \<times> result) option" where
  "bestFirstSearch start maxNodes =
     (case findCell start DOCK of
        None \<Rightarrow> Some (failed NoStart 0 [])
      | Some dockPos \<Rightarrow>
          bestLoop start dockPos maxNodes (pushPQ dockPos [] start)
            [serializeGrid start \<mapsto> None] {} 0 [])"

definition bestFirstSolve :: "grid \<Rightarrow> jsNumber \<Rightarrow> result option" where
  "bestFirstSolve start maxNodes = map_option snd (bestFirstSearch start maxNodes)"

section \<open>The move generator on a store of rows (lines 21-23 and 56-113)\<close>

text \<open>
  In the functions above a grid is a value, so nothing can be said of which arrays a
  successor shares with its predecessor. Here the rows live in a store: a row is an
  address, a grid is the array of the addresses of its rows, \<^verbatim>\<open>r.slice()\<close> allocates
  the next free address, and \<^verbatim>\<open>ng[r][c] = v\<close> changes the stored row at the address
  \<^verbatim>\<open>ng[r]\<close>. The reads of \<open>moveGen\<close> go through the store as it is when they happen.
  The outer array of a successor is the new array that \<^verbatim>\<open>map\<close> returns; no statement
  of \<open>moveGen\<close> writes to an outer array, so the outer arrays stay values.
\<close>

type_synonym addr = nat

record store =
  rowAt :: "addr \<Rightarrow> cell list"
  nextAddr :: addr

type_synonym gridRef = "addr list"

definition readGrid :: "store \<Rightarrow> gridRef \<Rightarrow> grid" where
  "readGrid s g = map (rowAt s) g"

definition sliceRow :: "store \<Rightarrow> addr \<Rightarrow> store \<times> addr" where
  "sliceRow s a =
     (s\<lparr>rowAt := (rowAt s)(nextAddr s := rowAt s a), nextAddr := nextAddr s + 1\<rparr>, nextAddr s)"

fun cloneGridS :: "store \<Rightarrow> gridRef \<Rightarrow> store \<times> gridRef" where
  "cloneGridS s [] = (s, [])"
| "cloneGridS s (a # as) =
     (case sliceRow s a of (s1, a') \<Rightarrow>
        (case cloneGridS s1 as of (s2, as') \<Rightarrow> (s2, a' # as')))"

text \<open>The write \<^verbatim>\<open>ng[r][c] = v\<close>, with the row index read as \<open>setCell\<close> reads it.\<close>

definition setCellS :: "store \<Rightarrow> gridRef \<Rightarrow> int \<Rightarrow> int \<Rightarrow> cell \<Rightarrow> store" where
  "setCellS s ng r c v =
     (if nat r < length ng
      then s\<lparr>rowAt := (rowAt s)(ng ! nat r := (rowAt s (ng ! nat r))[nat c := v])\<rparr>
      else s)"

definition shiftChainS :: "dir \<Rightarrow> pos list \<Rightarrow> gridRef \<Rightarrow> store \<Rightarrow> store" where
  "shiftChainS d chain ng s =
     foldr (\<lambda>(r, c) s. setCellS (setCellS s ng (r + dr d) (c + dc d) AST) ng r c EMPTY) chain s"

definition moveDirS :: "store \<Rightarrow> gridRef \<Rightarrow> pos \<Rightarrow> dir \<Rightarrow> store \<times> gridRef option" where
  "moveDirS s g probe d =
     (case probe of (pr, pc) \<Rightarrow>
        let nr = pr + dr d; nc = pc + dc d in
        if \<not> inBounds (readGrid s g) nr nc then (s, None)
        else let nextCell = cellAt (readGrid s g) nr nc in
          if nextCell = Some WALL then (s, None)
          else if nextCell = Some EMPTY \<or> nextCell = Some DOCK then
            (case cloneGridS s g of (s1, ng) \<Rightarrow>
               (setCellS (setCellS s1 ng pr pc EMPTY) ng nr nc PROBE, Some ng))
          else if nextCell = Some AST then
            (case scanChain (readGrid s g) d [] nr nc of (chain, cr, cc) \<Rightarrow>
               if \<not> inBounds (readGrid s g) cr cc then (s, None)
               else if cellAt (readGrid s g) cr cc \<noteq> Some EMPTY then (s, None)
               else
                 (case cloneGridS s g of (s1, ng) \<Rightarrow>
                    (setCellS (shiftChainS d chain ng (setCellS s1 ng pr pc EMPTY)) ng nr nc PROBE,
                     Some ng)))
          else (s, None))"

definition pushDirS ::
  "gridRef \<Rightarrow> pos \<Rightarrow> store \<times> gridRef list \<Rightarrow> dir \<Rightarrow> store \<times> gridRef list" where
  "pushDirS g probe sres d =
     (case sres of (s, res) \<Rightarrow>
        (case moveDirS s g probe d of
           (s', None) \<Rightarrow> (s', res)
         | (s', Some ng) \<Rightarrow> (s', res @ [ng])))"

definition moveGenS :: "store \<Rightarrow> gridRef \<Rightarrow> store \<times> gridRef list" where
  "moveGenS s g =
     (case findCell (readGrid s g) PROBE of
        None \<Rightarrow> (s, [])
      | Some probe \<Rightarrow> foldl (pushDirS g probe) (s, []) DIRS)"

section \<open>Notions used in the statements\<close>

text \<open>The position \<open>i\<close> cells ahead of \<open>p\<close> in direction \<open>d\<close>.\<close>

definition ahead :: "pos \<Rightarrow> dir \<Rightarrow> nat \<Rightarrow> pos" where
  "ahead p d i = (fst p + int i * dr d, snd p + int i * dc d)"

text \<open>The number of cells of a grid that hold the value \<open>v\<close>.\<close>

definition countCells :: "grid \<Rightarrow> cell \<Rightarrow> nat" where
  "countCells g v = count_list (concat g) v"

text \<open>A walk: a non-empty list of grids, each one a successor by \<open>moveGen\<close> of the
  grid before it.\<close>

fun isWalk :: "grid list \<Rightarrow> bool" where
  "isWalk [] = False"
| "isWalk [g] = True"
| "isWalk (g # h # gs) = (h \<in> set (moveGen g) \<and> isWalk (h # gs))"

text \<open>The goal test of the three loops (lines 162, 207 and 272).\<close>

definition goalTest :: "pos option \<Rightarrow> grid \<Rightarrow> bool" where
  "goalTest dockPos g = (isGoal g \<or> isAtDock g dockPos)"

text \<open>A solution of a start grid: a walk from it to a grid that passes the goal test,
  with the dock position taken from the start grid.\<close>

definition solutionWalk :: "grid \<Rightarrow> grid list \<Rightarrow> bool" where
  "solutionWalk start gs =
     (isWalk gs \<and> hd gs = start \<and> goalTest (findCell start DOCK) (last gs))"

text \<open>The count \<open>n\<close> is the first value of the counter at which the ceiling test
  \<^verbatim>\<open>nodes > maxNodes\<close> holds (the counter is at least 1 when it is tested).\<close>

definition firstAbove :: "jsNumber \<Rightarrow> nat \<Rightarrow> bool" where
  "firstAbove maxNodes n \<longleftrightarrow>
     0 < n \<and> exceeds n maxNodes \<and> list_all (\<lambda>k. \<not> exceeds k maxNodes) [1..<n]"

text \<open>What a result reports, by the way the solver was left: a path that is a solution
  walk from the start grid, each grid rebuilt from its key; no path and a count that is
  the first one above the ceiling; no path when no solution walk exists at all (every
  grid that can be reached has been expanded, none passed the goal test); or no path and
  no expansion when the start grid lacks a Probe or a Dock.\<close>

definition reports :: "grid \<Rightarrow> jsNumber \<Rightarrow> stop \<Rightarrow> result \<Rightarrow> bool" where
  "reports start maxNodes e r =
     (case e of
        GoalFound \<Rightarrow>
          (\<exists>ws. solutionWalk start ws \<and>
             path r =
               Some (map (\<lambda>g. deserializeGrid (serializeGrid g) (length start) (cols start)) ws))
      | CeilingHit \<Rightarrow> path r = None \<and> firstAbove maxNodes (nodesExpanded r)
      | FrontierEmpty \<Rightarrow> path r = None \<and> (\<forall>ws. \<not> solutionWalk start ws)
      | NoStart \<Rightarrow>
          path r = None \<and> nodesExpanded r = 0 \<and>
          (findCell start PROBE = None \<or> findCell start DOCK = None))"

section \<open>Notions used in the proofs\<close>

text \<open>The parent links of a walk: the key of the start grid maps to \<^verbatim>\<open>null\<close>, the
  key of every later grid to the key of the grid before it.\<close>

inductive parentChain :: "parents \<Rightarrow> grid \<Rightarrow> grid list \<Rightarrow> bool" for parent start where
  chain_start: "parent (serializeGrid start) = Some None \<Longrightarrow> parentChain parent start [start]"
| chain_step: "parentChain parent start (gs @ [g]) \<Longrightarrow> h \<in> set (moveGen g) \<Longrightarrow>
     parent (serializeGrid h) = Some (Some (serializeGrid g)) \<Longrightarrow>
     parentChain parent start (gs @ [g, h])"

text \<open>The least number of moves that lead from the start grid to a grid.\<close>

definition minMoves :: "grid \<Rightarrow> grid \<Rightarrow> nat" where
  "minMoves start g =
     (LEAST n. \<exists>gs. isWalk gs \<and> hd gs = start \<and> last gs = g \<and> length gs = Suc n)"

text \<open>Every key of the parent map ends the parent links of some walk from the start
  grid.\<close>

definition chained :: "grid \<Rightarrow> parents \<Rightarrow> bool" where
  "chained start parent \<longleftrightarrow>
     (\<forall>k. parent k \<noteq> None \<longrightarrow>
        (\<exists>ws. parentChain parent start ws \<and> serializeGrid (last ws) = k))"

text \<open>Every grid of the frontier has the row lengths of the start grid and a key in the
  parent map.\<close>

definition frontierOk :: "grid \<Rightarrow> parents \<Rightarrow> grid list \<Rightarrow> bool" where
  "frontierOk start parent gs \<longleftrightarrow>
     (\<forall>g\<in>set gs. map length g = map length start \<and> parent (serializeGrid g) \<noteq> None)"

text \<open>A grid counts as seen when it has the row lengths of the start grid and its key
  is in the parent map.\<close>

definition seenGrid :: "grid \<Rightarrow> parents \<Rightarrow> grid \<Rightarrow> bool" where
  "seenGrid start parent g \<longleftrightarrow>
     map length g = map length start \<and> parent (serializeGrid g) \<noteq> None"

text \<open>Every seen grid outside the set \<open>X\<close> has failed the goal test and has all its
  successors seen.\<close>

definition closedOutside :: "grid \<Rightarrow> pos option \<Rightarrow> parents \<Rightarrow> grid set \<Rightarrow> bool" where
  "closedOutside start dockPos parent X \<longleftrightarrow>
     (\<forall>g. seenGrid start parent g \<and> g \<notin> X \<longrightarrow>
        \<not> goalTest dockPos g \<and> (\<forall>h\<in>set (moveGen g). seenGrid start parent h))"

text \<open>Every key of the parent map ends the parent links of a shortest walk.\<close>

definition shortestChained :: "grid \<Rightarrow> parents \<Rightarrow> bool" where
  "shortestChained start parent \<longleftrightarrow>
     (\<forall>k. parent k \<noteq> None \<longrightarrow>
        (\<exists>ws. parentChain parent start ws \<and> serializeGrid (last ws) = k \<and>
           length ws = Suc (minMoves start (last ws))))"

text \<open>The invariant of the loop of \<open>bfsSolve\<close>.\<close>

definition bfsInv :: "grid \<Rightarrow> pos option \<Rightarrow> grid list \<Rightarrow> parents \<Rightarrow> string set \<Rightarrow> bool" where
  "bfsInv start dockPos q parent seen \<longleftrightarrow>
     seen = {k. parent k \<noteq> None} \<and>
     parent (serializeGrid start) \<noteq> None \<and>
     frontierOk start parent q \<and>
     shortestChained start parent \<and>
     closedOutside start dockPos parent (set q) \<and>
     sorted (map (minMoves start) q) \<and>
     (q \<noteq> [] \<longrightarrow> minMoves start (last q) \<le> minMoves start (hd q) + 1)"

text \<open>The invariant of the loop over the successors of the grid \<open>g\<close> that \<open>bfsSolve\<close>
  has just taken from its queue.\<close>

definition bfsFoldInv ::
  "grid \<Rightarrow> pos option \<Rightarrow> grid \<Rightarrow> grid list \<Rightarrow> parents \<Rightarrow> string set \<Rightarrow> bool" where
  "bfsFoldInv start dockPos g q parent seen \<longleftrightarrow>
     seen = {k. parent k \<noteq> None} \<and>
     parent (serializeGrid start) \<noteq> None \<and>
     frontierOk start parent q \<and>
     shortestChained start parent \<and>
     sorted (map (minMoves start) q) \<and>
     (\<forall>x\<in>set q. minMoves start g \<le> minMoves start x \<and>
        minMoves start x \<le> minMoves start g + 1) \<and>
     closedOutside start dockPos parent (insert g (set q)) \<and>
     (\<exists>ws. parentChain parent start ws \<and> last ws = g \<and>
        length ws = Suc (minMoves start g))"

text \<open>The keys of the grids that have the row lengths of the start grid: a finite set,
  which bounds the number of expansions whatever the ceiling.\<close>

definition keysOf :: "grid \<Rightarrow> string set" where
  "keysOf start = serializeGrid ` {g. map length g = map length start}"

text \<open>Every grid of a frontier has the row lengths of the start grid.\<close>

definition sameShape :: "grid \<Rightarrow> grid list \<Rightarrow> bool" where
  "sameShape start gs \<longleftrightarrow> (\<forall>g\<in>set gs. map length g = map length start)"

text \<open>The ceiling test has failed at every value that the counter has had.\<close>

definition belowCeiling :: "jsNumber \<Rightarrow> nat \<Rightarrow> bool" where
  "belowCeiling maxNodes nodes \<longleftrightarrow> (\<forall>n. 0 < n \<and> n \<le> nodes \<longrightarrow> \<not> exceeds n maxNodes)"

text \<open>The invariant of the loops of \<open>dfsSolve\<close> and \<open>bestFirstSolve\<close> on the grids they
  have expanded, those whose key is in \<^verbatim>\<open>seen\<close>: none passed the goal test, and every
  successor of one of them is expanded or in the frontier. The start grid is expanded or
  in the frontier.\<close>

definition expandedClosed :: "grid \<Rightarrow> pos option \<Rightarrow> string set \<Rightarrow> grid list \<Rightarrow> bool" where
  "expandedClosed start dockPos seen fr \<longleftrightarrow>
     (start \<in> set fr \<or> serializeGrid start \<in> seen) \<and>
     (\<forall>g. map length g = map length start \<and> serializeGrid g \<in> seen \<longrightarrow>
        \<not> goalTest dockPos g \<and>
        (\<forall>h\<in>set (moveGen g). serializeGrid h \<in> seen \<or> h \<in> set fr))"

text \<open>Every grid of a frontier has a Probe cell.\<close>

definition withProbe :: "grid list \<Rightarrow> bool" where
  "withProbe gs \<longleftrightarrow> (\<forall>g\<in>set gs. findCell g PROBE \<noteq> None)"

section \<open>Properties of the grid operations\<close>


lemma length_setCell [simp]: "length (setCell g r c v) = length g"
  by (simp add: setCell_def)

lemma length_row_setCell [simp]: "length (setCell g r c v ! i) = length (g ! i)"
proof (cases "nat r = i")
  case True
  show ?thesis
  proof (cases "i < length g")
    case True
    with \<open>nat r = i\<close> show ?thesis by (simp add: setCell_def)
  next
    case False
    then have "length g \<le> nat r" using \<open>nat r = i\<close> by simp
    then have "setCell g r c v = g" unfolding setCell_def by (rule list_update_beyond)
    then show ?thesis by simp
  qed
next
  case False
  then show ?thesis by (simp add: setCell_def)
qed

lemma shape_setCell [simp]: "map length (setCell g r c v) = map length g"
  by (rule nth_equalityI) simp_all

lemma cols_shape: "cols h = (case map length h of [] \<Rightarrow> 0 | n # _ \<Rightarrow> n)"
  by (simp add: cols_def split: list.splits)

lemma cols_setCell [simp]: "cols (setCell g r c v) = cols g"
  by (simp add: cols_shape)

lemma inBounds_setCell [simp]: "inBounds (setCell g r c v) r' c' = inBounds g r' c'"
  by (simp add: inBounds_def)

lemma cellAt_setCell:
  assumes "cellAt g r c \<noteq> None"
  shows "cellAt (setCell g r c v) r' c' = (if r' = r \<and> c' = c then Some v else cellAt g r' c')"
proof -
  from assms have rng: "0 \<le> r" "nat r < length g" "0 \<le> c" "nat c < length (g ! nat r)"
    by (auto simp: cellAt_def split: if_splits)
  show ?thesis
  proof (cases "0 \<le> r' \<and> r' < int (length g) \<and> 0 \<le> c' \<and> c' < int (length (g ! nat r'))")
    case False
    then show ?thesis using assms by (auto simp: cellAt_def)
  next
    case True
    then have "setCell g r c v ! nat r' ! nat c' = (if r' = r \<and> c' = c then v else g ! nat r' ! nat c')"
      using rng by (auto simp: setCell_def nth_list_update)
    then show ?thesis using True by (simp add: cellAt_def)
  qed
qed

lemma cellAt_setCell_None [simp]:
  "cellAt (setCell g r c v) r' c' = None \<longleftrightarrow> cellAt g r' c' = None"
  by (simp add: cellAt_def)

lemma cloneGrid_id [simp]: "cloneGrid g = g"
  by (simp add: cloneGrid_def)

lemma set_positions:
  "set (positions g) = (\<lambda>(i, j). (int i, int j)) ` ({0..<length g} \<times> {0..<cols g})"
  by (auto simp: positions_def)

lemma positions_iff: "(r, c) \<in> set (positions g) \<longleftrightarrow> inBounds g r c"
proof
  assume "(r, c) \<in> set (positions g)"
  then show "inBounds g r c" by (auto simp: set_positions inBounds_def)
next
  assume a: "inBounds g r c"
  have "(r, c) = (\<lambda>(i, j). (int i, int j)) (nat r, nat c)"
    using a by (simp add: inBounds_def)
  moreover have "(nat r, nat c) \<in> {0..<length g} \<times> {0..<cols g}"
    using a by (auto simp: inBounds_def)
  ultimately show "(r, c) \<in> set (positions g)"
    unfolding set_positions by (rule image_eqI)
qed

lemma findCell_Some:
  assumes "findCell g v = Some (r, c)"
  shows "cellAt g r c = Some v" and "inBounds g r c"
proof -
  from assms obtain i where "i < length (positions g)" "positions g ! i = (r, c)"
      "cellAt g r c = Some v"
    unfolding findCell_def find_Some_iff by auto
  then have "(r, c) \<in> set (positions g)" "cellAt g r c = Some v"
    by (auto simp: in_set_conv_nth)
  then show "cellAt g r c = Some v" and "inBounds g r c"
    by (simp_all add: positions_iff)
qed


section \<open>Steps onto a free cell\<close>

lemma dir_moves: "dr d \<noteq> 0 \<or> dc d \<noteq> 0"
  by (cases d) simp_all

lemma moveGen_dirs:
  "findCell g PROBE = Some p \<Longrightarrow> moveGen g = List.map_filter (moveDir g p) [Up, Down, Left, Right]"
  by (simp add: moveGen_def DIRS_def)

lemma moveDir_step:
  assumes probe: "cellAt g pr pc \<noteq> None"
    and inb: "inBounds g (pr + dr d) (pc + dc d)"
    and nxt: "cellAt g (pr + dr d) (pc + dc d) = Some EMPTY \<or> cellAt g (pr + dr d) (pc + dc d) = Some DOCK"
  shows "moveDir g (pr, pc) d = Some (setCell (setCell g pr pc EMPTY) (pr + dr d) (pc + dc d) PROBE)"
  using inb nxt by (auto simp: moveDir_def Let_def)

lemma moveDir_blocked:
  assumes "\<not> inBounds g (pr + dr d) (pc + dc d) \<or> cellAt g (pr + dr d) (pc + dc d) = None
      \<or> cellAt g (pr + dr d) (pc + dc d) = Some WALL"
  shows "moveDir g (pr, pc) d = None"
  using assms by (auto simp: moveDir_def Let_def)

text \<open>
  Claim C3. With the probe found at \<open>(pr, pc)\<close>, the successors of \<open>moveGen\<close> are
  those of its four iterations, in the order Up, Down, Left, Right. An iteration whose
  adjacent cell is in bounds and Empty or Dock pushes one successor: the probe's old cell
  is Empty, the adjacent cell is Probe (nothing of the Dock tag is kept), and no other
  cell differs. An iteration whose adjacent cell is out of bounds, undefined or Wall
  pushes nothing.
\<close>

theorem moveGen_step_or_blocked:
  assumes "findCell g PROBE = Some (pr, pc)"
  shows "moveGen g = List.map_filter (moveDir g (pr, pc)) [Up, Down, Left, Right] \<and>
    (\<forall>d. (inBounds g (pr + dr d) (pc + dc d) \<and>
            (cellAt g (pr + dr d) (pc + dc d) = Some EMPTY \<or>
             cellAt g (pr + dr d) (pc + dc d) = Some DOCK) \<longrightarrow>
          (\<exists>ng. moveDir g (pr, pc) d = Some ng \<and>
             cellAt ng pr pc = Some EMPTY \<and>
             cellAt ng (pr + dr d) (pc + dc d) = Some PROBE \<and>
             (\<forall>r c. (r, c) \<noteq> (pr, pc) \<and> (r, c) \<noteq> (pr + dr d, pc + dc d) \<longrightarrow>
                cellAt ng r c = cellAt g r c))) \<and>
         (\<not> inBounds g (pr + dr d) (pc + dc d) \<or>
          cellAt g (pr + dr d) (pc + dc d) = None \<or>
          cellAt g (pr + dr d) (pc + dc d) = Some WALL \<longrightarrow>
          moveDir g (pr, pc) d = None))"
proof (intro conjI allI impI)
  show "moveGen g = List.map_filter (moveDir g (pr, pc)) [Up, Down, Left, Right]"
    using assms by (rule moveGen_dirs)
next
  fix d
  assume a: "inBounds g (pr + dr d) (pc + dc d) \<and>
            (cellAt g (pr + dr d) (pc + dc d) = Some EMPTY \<or>
             cellAt g (pr + dr d) (pc + dc d) = Some DOCK)"
  have probe: "cellAt g pr pc = Some PROBE"
    using assms by (rule findCell_Some)
  let ?ng = "setCell (setCell g pr pc EMPTY) (pr + dr d) (pc + dc d) PROBE"
  have m: "moveDir g (pr, pc) d = Some ?ng"
    using a probe by (intro moveDir_step) auto
  have def1: "cellAt (setCell g pr pc EMPTY) (pr + dr d) (pc + dc d) \<noteq> None"
    using a by auto
  have ne: "\<not> (pr = pr + dr d \<and> pc = pc + dc d)"
    using dir_moves [of d] by auto
  have c1: "cellAt ?ng pr pc = Some EMPTY"
    using ne probe by (simp add: cellAt_setCell [OF def1] cellAt_setCell)
  have c2: "cellAt ?ng (pr + dr d) (pc + dc d) = Some PROBE"
    by (simp add: cellAt_setCell [OF def1])
  have c3: "\<forall>r c. (r, c) \<noteq> (pr, pc) \<and> (r, c) \<noteq> (pr + dr d, pc + dc d) \<longrightarrow>
                cellAt ?ng r c = cellAt g r c"
    using probe by (auto simp: cellAt_setCell [OF def1] cellAt_setCell)
  show "\<exists>ng. moveDir g (pr, pc) d = Some ng \<and>
             cellAt ng pr pc = Some EMPTY \<and>
             cellAt ng (pr + dr d) (pc + dc d) = Some PROBE \<and>
             (\<forall>r c. (r, c) \<noteq> (pr, pc) \<and> (r, c) \<noteq> (pr + dr d, pc + dc d) \<longrightarrow>
                cellAt ng r c = cellAt g r c)"
    using m c1 c2 c3 by blast
next
  fix d
  assume "\<not> inBounds g (pr + dr d) (pc + dc d) \<or>
          cellAt g (pr + dr d) (pc + dc d) = None \<or>
          cellAt g (pr + dr d) (pc + dc d) = Some WALL"
  then show "moveDir g (pr, pc) d = None"
    by (rule moveDir_blocked)
qed

theorem moveGen_step_or_blocked_witness:
  "findCell [[PROBE, DOCK]] PROBE = Some (0, 0) \<and>
   moveGen [[PROBE, DOCK]] = [[[EMPTY, PROBE]]] \<and>
   moveDir [[PROBE, DOCK]] (0, 0) Right = Some [[EMPTY, PROBE]] \<and>
   moveDir [[PROBE, DOCK]] (0, 0) Up = None"
proof -
  have f: "findCell [[PROBE, DOCK]] PROBE = Some (0, 0)"
    by code_simp
  have m: "moveDir [[PROBE, DOCK]] (0, 0) Right = Some [[EMPTY, PROBE]]"
      "moveDir [[PROBE, DOCK]] (0, 0) Up = None" "moveDir [[PROBE, DOCK]] (0, 0) Down = None"
      "moveDir [[PROBE, DOCK]] (0, 0) Left = None"
    by code_simp+
  from moveGen_step_or_blocked [OF f]
  have "moveGen [[PROBE, DOCK]] = List.map_filter (moveDir [[PROBE, DOCK]] (0, 0)) [Up, Down, Left, Right]"
    by (rule conjunct1)
  then have "moveGen [[PROBE, DOCK]] = [[[EMPTY, PROBE]]]"
    by (simp add: m List.map_filter_simps)
  with f m show ?thesis by simp
qed

section \<open>Pushes of a run of asteroids\<close>

lemma ahead_0 [simp]: "ahead p d 0 = p"
  by (simp add: ahead_def)

lemma ahead_Suc: "ahead p d (Suc i) = (fst (ahead p d i) + dr d, snd (ahead p d i) + dc d)"
  by (simp add: ahead_def algebra_simps)

lemma ahead_inj [simp]: "ahead p d i = ahead p d j \<longleftrightarrow> i = j"
  using dir_moves [of d] by (auto simp: ahead_def)

lemma shape_cellAt_None:
  assumes "map length g = map length h"
  shows "cellAt g r c = None \<longleftrightarrow> cellAt h r c = None"
proof -
  have l: "length g = length h"
    using assms by (rule map_eq_imp_length_eq)
  have "length (g ! nat r) = length (h ! nat r)" if "nat r < length g"
    using that assms l by (metis nth_map)
  then show ?thesis
    using l by (auto simp: cellAt_def)
qed

lemma ex_split_first:
  assumes "j < m"
  shows "(\<exists>i. j < i \<and> i \<le> m \<and> P i) \<longleftrightarrow> P (Suc j) \<or> (\<exists>i. Suc j < i \<and> i \<le> m \<and> P i)"
proof
  assume "\<exists>i. j < i \<and> i \<le> m \<and> P i"
  then obtain i where i: "j < i" "i \<le> m" "P i" by blast
  show "P (Suc j) \<or> (\<exists>i. Suc j < i \<and> i \<le> m \<and> P i)"
  proof (cases "i = Suc j")
    case True
    with i show ?thesis by simp
  next
    case False
    with i have "Suc j < i" by arith
    with i show ?thesis by blast
  qed
next
  assume "P (Suc j) \<or> (\<exists>i. Suc j < i \<and> i \<le> m \<and> P i)"
  then show "\<exists>i. j < i \<and> i \<le> m \<and> P i"
  proof
    assume "P (Suc j)"
    with assms have "j < Suc j \<and> Suc j \<le> m \<and> P (Suc j)" by simp
    then show ?thesis by (rule exI)
  next
    assume "\<exists>i. Suc j < i \<and> i \<le> m \<and> P i"
    then obtain i where "Suc j < i" "i \<le> m" "P i" by blast
    then have "j < i \<and> i \<le> m \<and> P i" by simp
    then show ?thesis by (rule exI)
  qed
qed

lemma scanChain_run:
  assumes "\<forall>i. j \<le> i \<and> i < m \<longrightarrow>
      inBounds g (fst (ahead p d i)) (snd (ahead p d i)) \<and>
      cellAt g (fst (ahead p d i)) (snd (ahead p d i)) = Some AST"
    and "\<not> (inBounds g (fst (ahead p d m)) (snd (ahead p d m)) \<and>
      cellAt g (fst (ahead p d m)) (snd (ahead p d m)) = Some AST)"
    and "j \<le> m"
  shows "scanChain g d chain (fst (ahead p d j)) (snd (ahead p d j)) =
    (chain @ map (ahead p d) [j..<m], fst (ahead p d m), snd (ahead p d m))"
  using assms
proof (induction "m - j" arbitrary: j chain)
  case 0
  then have "j = m" by simp
  with 0(3) show ?case by (subst scanChain.simps) auto
next
  case (Suc n)
  then have lt: "j < m" by simp
  with Suc.prems have here: "inBounds g (fst (ahead p d j)) (snd (ahead p d j)) \<and>
      cellAt g (fst (ahead p d j)) (snd (ahead p d j)) = Some AST"
    by simp
  have "scanChain g d (chain @ [ahead p d j]) (fst (ahead p d (Suc j))) (snd (ahead p d (Suc j))) =
    ((chain @ [ahead p d j]) @ map (ahead p d) [Suc j..<m], fst (ahead p d m), snd (ahead p d m))"
    using Suc.hyps(2) Suc.prems lt by (intro Suc.hyps(1)) auto
  then show ?case
    using here lt by (subst scanChain.simps) (simp add: ahead_Suc upt_conv_Cons)
qed

lemma shiftChain_Nil [simp]: "shiftChain d [] ng = ng"
  by (simp add: shiftChain_def)

lemma shiftChain_Cons:
  "shiftChain d (q # chain) ng =
     setCell (setCell (shiftChain d chain ng) (fst q + dr d) (snd q + dc d) AST) (fst q) (snd q) EMPTY"
  by (simp add: shiftChain_def split_beta)

lemma shape_shiftChain [simp]: "map length (shiftChain d chain ng) = map length ng"
  by (induction chain) (simp_all add: shiftChain_Cons)

lemma pos_eq: "(r = fst q \<and> c = snd q) = ((r, c) = q)"
  by (cases q) auto

lemma shiftChain_cells:
  assumes "\<forall>i. j \<le> i \<and> i \<le> m \<longrightarrow> cellAt ng (fst (ahead p d i)) (snd (ahead p d i)) \<noteq> None"
    and "j \<le> m"
  shows "cellAt (shiftChain d (map (ahead p d) [j..<m]) ng) r c =
    (if j < m \<and> (r, c) = ahead p d j then Some EMPTY
     else if \<exists>i. j < i \<and> i \<le> m \<and> (r, c) = ahead p d i then Some AST
     else cellAt ng r c)"
  using assms
proof (induction "m - j" arbitrary: j r c)
  case 0
  then show ?case by auto
next
  case (Suc n)
  then have lt: "j < m" by simp
  let ?R' = "shiftChain d (map (ahead p d) [Suc j..<m]) ng"
  have IH: "cellAt ?R' r c =
    (if Suc j < m \<and> (r, c) = ahead p d (Suc j) then Some EMPTY
     else if \<exists>i. Suc j < i \<and> i \<le> m \<and> (r, c) = ahead p d i then Some AST
     else cellAt ng r c)" for r c
    using Suc.hyps(2) Suc.prems lt by (intro Suc.hyps(1)) auto
  have def: "cellAt h (fst (ahead p d i)) (snd (ahead p d i)) \<noteq> None"
    if "map length h = map length ng" "j \<le> i" "i \<le> m" for h i
    using that Suc.prems(1) shape_cellAt_None [of h ng] by blast
  let ?R'' = "setCell ?R' (fst (ahead p d (Suc j))) (snd (ahead p d (Suc j))) AST"
  have R: "shiftChain d (map (ahead p d) [j..<m]) ng =
      setCell ?R'' (fst (ahead p d j)) (snd (ahead p d j)) EMPTY"
    using lt by (simp add: upt_conv_Cons shiftChain_Cons ahead_Suc)
  have d1: "cellAt ?R' (fst (ahead p d (Suc j))) (snd (ahead p d (Suc j))) \<noteq> None"
    using lt by (intro def) simp_all
  have d2: "cellAt ?R'' (fst (ahead p d j)) (snd (ahead p d j)) \<noteq> None"
    using lt by (intro def) simp_all
  show ?case
  proof (cases "(r, c) = ahead p d j")
    case True
    then show ?thesis
      unfolding R cellAt_setCell [OF d2] pos_eq using lt by simp
  next
    case nj: False
    show ?thesis
    proof (cases "(r, c) = ahead p d (Suc j)")
      case True
      have "\<exists>i. j < i \<and> i \<le> m \<and> ahead p d (Suc j) = ahead p d i"
        using lt by (intro exI [of _ "Suc j"]) simp
      then show ?thesis
        unfolding R cellAt_setCell [OF d2] cellAt_setCell [OF d1] pos_eq
        using True by simp
    next
      case False
      then show ?thesis
        unfolding R cellAt_setCell [OF d2] cellAt_setCell [OF d1] pos_eq IH
          ex_split_first [OF lt, of "\<lambda>i. (r, c) = ahead p d i"]
        using nj by simp
    qed
  qed
qed

lemma ahead_1: "ahead (pr, pc) d (Suc 0) = (pr + dr d, pc + dc d)"
  by (simp add: ahead_def)

lemma moveDir_push:
  assumes run: "\<forall>i. 1 \<le> i \<and> i \<le> k \<longrightarrow>
      inBounds g (fst (ahead (pr, pc) d i)) (snd (ahead (pr, pc) d i)) \<and>
      cellAt g (fst (ahead (pr, pc) d i)) (snd (ahead (pr, pc) d i)) = Some AST"
    and k: "1 \<le> k"
    and stop: "\<not> (inBounds g (fst (ahead (pr, pc) d (Suc k))) (snd (ahead (pr, pc) d (Suc k))) \<and>
      cellAt g (fst (ahead (pr, pc) d (Suc k))) (snd (ahead (pr, pc) d (Suc k))) = Some AST)"
  shows "moveDir g (pr, pc) d =
    (if inBounds g (fst (ahead (pr, pc) d (Suc k))) (snd (ahead (pr, pc) d (Suc k))) \<and>
        cellAt g (fst (ahead (pr, pc) d (Suc k))) (snd (ahead (pr, pc) d (Suc k))) = Some EMPTY
     then Some (setCell (shiftChain d (map (ahead (pr, pc) d) [1..<Suc k]) (setCell g pr pc EMPTY))
                 (pr + dr d) (pc + dc d) PROBE)
     else None)"
proof -
  have first: "inBounds g (pr + dr d) (pc + dc d)" "cellAt g (pr + dr d) (pc + dc d) = Some AST"
    using run k ahead_1 [of pr pc d] by (metis One_nat_def fst_conv snd_conv order_refl)+
  have "\<forall>i. 1 \<le> i \<and> i < Suc k \<longrightarrow>
      inBounds g (fst (ahead (pr, pc) d i)) (snd (ahead (pr, pc) d i)) \<and>
      cellAt g (fst (ahead (pr, pc) d i)) (snd (ahead (pr, pc) d i)) = Some AST"
    using run by (simp add: less_Suc_eq_le)
  from scanChain_run [OF this stop, of "[]"] k
  have scan: "scanChain g d [] (pr + dr d) (pc + dc d) =
    (map (ahead (pr, pc) d) [1..<Suc k], fst (ahead (pr, pc) d (Suc k)), snd (ahead (pr, pc) d (Suc k)))"
    by (simp add: ahead_1)
  obtain cr cc where L: "ahead (pr, pc) d (Suc k) = (cr, cc)"
    by (cases "ahead (pr, pc) d (Suc k)")
  show ?thesis
    using first by (simp add: moveDir_def Let_def scan L del: upt_Suc)
qed

lemma moveDir_push_cells:
  assumes probe: "cellAt g pr pc \<noteq> None"
    and run: "\<forall>i. 1 \<le> i \<and> i \<le> k \<longrightarrow>
      cellAt g (fst (ahead (pr, pc) d i)) (snd (ahead (pr, pc) d i)) = Some AST"
    and k: "1 \<le> k"
    and land: "cellAt g (fst (ahead (pr, pc) d (Suc k))) (snd (ahead (pr, pc) d (Suc k))) = Some EMPTY"
  shows "cellAt (setCell (shiftChain d (map (ahead (pr, pc) d) [1..<Suc k]) (setCell g pr pc EMPTY))
                 (pr + dr d) (pc + dc d) PROBE) r c =
    (if (r, c) = (pr, pc) then Some EMPTY
     else if (r, c) = ahead (pr, pc) d 1 then Some PROBE
     else if \<exists>i. 1 < i \<and> i \<le> Suc k \<and> (r, c) = ahead (pr, pc) d i then Some AST
     else cellAt g r c)"
proof -
  let ?A = "ahead (pr, pc) d"
  let ?g0 = "setCell g pr pc EMPTY"
  let ?R = "shiftChain d (map ?A [1..<Suc k]) ?g0"
  have g0: "cellAt ?g0 r c = (if (r, c) = (pr, pc) then Some EMPTY else cellAt g r c)" for r c
    using probe by (simp add: cellAt_setCell)
  have defd: "\<forall>i. 1 \<le> i \<and> i \<le> Suc k \<longrightarrow> cellAt ?g0 (fst (?A i)) (snd (?A i)) \<noteq> None"
    using run land by (auto simp: le_Suc_eq)
  have R: "cellAt ?R r c =
    (if 1 < Suc k \<and> (r, c) = ?A 1 then Some EMPTY
     else if \<exists>i. 1 < i \<and> i \<le> Suc k \<and> (r, c) = ?A i then Some AST
     else cellAt ?g0 r c)" for r c
    by (rule shiftChain_cells [OF defd]) simp
  have "cellAt ?R (pr + dr d) (pc + dc d) \<noteq> None"
    using R [of "pr + dr d" "pc + dc d"] k by (simp add: ahead_1)
  from cellAt_setCell [OF this]
  have F: "cellAt (setCell ?R (pr + dr d) (pc + dc d) PROBE) r c =
      (if (r, c) = ?A 1 then Some PROBE else cellAt ?R r c)"
    by (simp add: ahead_1)
  have ne: "(pr, pc) \<noteq> ?A i" if "0 < i" for i
    using that ahead_inj [of "(pr, pc)" d 0 i] by simp
  have "(pr, pc) \<noteq> ?A 1" "\<not> (\<exists>i. 1 < i \<and> i \<le> Suc k \<and> (pr, pc) = ?A i)"
    using ne by auto
  then show ?thesis
    unfolding F R g0 by auto
qed

text \<open>
  Claim C2. With the probe found at \<open>(pr, pc)\<close> and, in direction \<open>d\<close>, a maximal run
  of \<open>k \<ge> 1\<close> asteroids at the positions 1 to \<open>k\<close> cells ahead, the iteration of
  \<open>moveGen\<close> for \<open>d\<close> pushes a successor if and only if the landing cell, \<open>k + 1\<close> cells
  ahead, is in bounds and Empty. In that successor the positions 2 to \<open>k + 1\<close> cells ahead
  hold an asteroid (each asteroid of the run has moved one cell), the probe's old cell is
  Empty, the probe stands 1 cell ahead, and every cell off that line segment is unchanged.
\<close>

theorem moveGen_push_run:
  assumes probe: "findCell g PROBE = Some (pr, pc)"
    and k: "1 \<le> k"
    and run: "\<forall>i. 1 \<le> i \<and> i \<le> k \<longrightarrow>
      inBounds g (fst (ahead (pr, pc) d i)) (snd (ahead (pr, pc) d i)) \<and>
      cellAt g (fst (ahead (pr, pc) d i)) (snd (ahead (pr, pc) d i)) = Some AST"
    and stop: "\<not> (inBounds g (fst (ahead (pr, pc) d (Suc k))) (snd (ahead (pr, pc) d (Suc k))) \<and>
      cellAt g (fst (ahead (pr, pc) d (Suc k))) (snd (ahead (pr, pc) d (Suc k))) = Some AST)"
  shows "moveGen g = List.map_filter (moveDir g (pr, pc)) [Up, Down, Left, Right] \<and>
    (moveDir g (pr, pc) d \<noteq> None \<longleftrightarrow>
       inBounds g (fst (ahead (pr, pc) d (Suc k))) (snd (ahead (pr, pc) d (Suc k))) \<and>
       cellAt g (fst (ahead (pr, pc) d (Suc k))) (snd (ahead (pr, pc) d (Suc k))) = Some EMPTY) \<and>
    (\<forall>ng. moveDir g (pr, pc) d = Some ng \<longrightarrow>
       (\<forall>i. 1 \<le> i \<and> i \<le> k \<longrightarrow>
          cellAt ng (fst (ahead (pr, pc) d (Suc i))) (snd (ahead (pr, pc) d (Suc i))) = Some AST) \<and>
       cellAt ng pr pc = Some EMPTY \<and>
       cellAt ng (fst (ahead (pr, pc) d 1)) (snd (ahead (pr, pc) d 1)) = Some PROBE \<and>
       (\<forall>r c. (\<forall>i. i \<le> Suc k \<longrightarrow> (r, c) \<noteq> ahead (pr, pc) d i) \<longrightarrow>
          cellAt ng r c = cellAt g r c))"
proof -
  let ?A = "ahead (pr, pc) d"
  let ?ng = "setCell (shiftChain d (map ?A [1..<Suc k]) (setCell g pr pc EMPTY))
               (pr + dr d) (pc + dc d) PROBE"
  note push = moveDir_push [OF run k stop]
  have p: "cellAt g pr pc \<noteq> None"
    using findCell_Some(1) [OF probe] by simp
  have run': "\<forall>i. 1 \<le> i \<and> i \<le> k \<longrightarrow> cellAt g (fst (?A i)) (snd (?A i)) = Some AST"
    using run by simp
  have cells: "cellAt ?ng r c =
    (if (r, c) = (pr, pc) then Some EMPTY
     else if (r, c) = ?A 1 then Some PROBE
     else if \<exists>i. 1 < i \<and> i \<le> Suc k \<and> (r, c) = ?A i then Some AST
     else cellAt g r c)"
    if "cellAt g (fst (?A (Suc k))) (snd (?A (Suc k))) = Some EMPTY" for r c
    using that by (rule moveDir_push_cells [OF p run' k])
  have ne: "(pr, pc) \<noteq> ?A i" if "0 < i" for i
    using that ahead_inj [of "(pr, pc)" d 0 i] by simp
  have succ: "(\<forall>i. 1 \<le> i \<and> i \<le> k \<longrightarrow> cellAt ng (fst (?A (Suc i))) (snd (?A (Suc i))) = Some AST) \<and>
       cellAt ng pr pc = Some EMPTY \<and>
       cellAt ng (fst (?A 1)) (snd (?A 1)) = Some PROBE \<and>
       (\<forall>r c. (\<forall>i. i \<le> Suc k \<longrightarrow> (r, c) \<noteq> ?A i) \<longrightarrow> cellAt ng r c = cellAt g r c)"
    if m: "moveDir g (pr, pc) d = Some ng" for ng
  proof -
    from m push have land: "cellAt g (fst (?A (Suc k))) (snd (?A (Suc k))) = Some EMPTY"
      and ng: "ng = ?ng"
      by (auto split: if_splits)
    have a: "cellAt ng (fst (?A (Suc i))) (snd (?A (Suc i))) = Some AST" if "1 \<le> i \<and> i \<le> k" for i
    proof -
      have "\<exists>j. 1 < j \<and> j \<le> Suc k \<and> ?A (Suc i) = ?A j"
        using that by (intro exI [of _ "Suc i"]) simp
      moreover have "?A (Suc i) \<noteq> (pr, pc)" "?A (Suc i) \<noteq> ?A 1"
        using ne [of "Suc i"] that by auto
      ultimately show ?thesis
        unfolding ng cells [OF land] by (simp only: prod.collapse refl if_False if_True)
    qed
    have b: "cellAt ng pr pc = Some EMPTY"
      unfolding ng cells [OF land] by (simp only: refl if_True)
    have "?A 1 \<noteq> (pr, pc)"
      using ne [of 1] by auto
    then have c: "cellAt ng (fst (?A 1)) (snd (?A 1)) = Some PROBE"
      unfolding ng cells [OF land] by (simp only: prod.collapse refl if_False if_True)
    have d: "cellAt ng r c = cellAt g r c" if "\<forall>i. i \<le> Suc k \<longrightarrow> (r, c) \<noteq> ?A i" for r c
    proof -
      from that have "(r, c) \<noteq> ?A 0" "(r, c) \<noteq> ?A 1"
          "\<not> (\<exists>i. 1 < i \<and> i \<le> Suc k \<and> (r, c) = ?A i)"
        by (blast, simp, blast)
      then have "(r, c) \<noteq> (pr, pc)" "(r, c) \<noteq> ?A 1"
          "\<not> (\<exists>i. 1 < i \<and> i \<le> Suc k \<and> (r, c) = ?A i)"
        by simp_all
      then show ?thesis
        unfolding ng cells [OF land] by (simp only: if_False)
    qed
    from a b c d show ?thesis by blast
  qed
  have "moveGen g = List.map_filter (moveDir g (pr, pc)) [Up, Down, Left, Right]"
    using probe by (rule moveGen_dirs)
  moreover have "moveDir g (pr, pc) d \<noteq> None \<longleftrightarrow>
       inBounds g (fst (?A (Suc k))) (snd (?A (Suc k))) \<and>
       cellAt g (fst (?A (Suc k))) (snd (?A (Suc k))) = Some EMPTY"
    unfolding push by simp
  ultimately show ?thesis
    using succ by blast
qed

theorem moveGen_push_run_witness:
  "findCell [[PROBE, AST, AST, EMPTY]] PROBE = Some (0, 0) \<and>
   moveGen [[PROBE, AST, AST, EMPTY]] = [[[EMPTY, PROBE, AST, AST]]] \<and>
   cellAt [[PROBE, AST, AST, EMPTY]] 0 3 = Some EMPTY \<and>
   moveDir [[PROBE, AST, AST, EMPTY]] (0, 0) Right \<noteq> None"
proof -
  let ?g = "[[PROBE, AST, AST, EMPTY]]"
  have f: "findCell ?g PROBE = Some (0, 0)"
    by code_simp
  have k: "1 \<le> (2::nat)" by simp
  have run: "\<forall>i. 1 \<le> i \<and> i \<le> (2::nat) \<longrightarrow>
      inBounds ?g (fst (ahead (0, 0) Right i)) (snd (ahead (0, 0) Right i)) \<and>
      cellAt ?g (fst (ahead (0, 0) Right i)) (snd (ahead (0, 0) Right i)) = Some AST"
  proof (intro allI impI)
    fix i :: nat
    assume "1 \<le> i \<and> i \<le> 2"
    then have "i = 1 \<or> i = 2" by arith
    then show "inBounds ?g (fst (ahead (0, 0) Right i)) (snd (ahead (0, 0) Right i)) \<and>
      cellAt ?g (fst (ahead (0, 0) Right i)) (snd (ahead (0, 0) Right i)) = Some AST"
      by (auto simp: ahead_def inBounds_def cellAt_def cols_def)
  qed
  have stop: "\<not> (inBounds ?g (fst (ahead (0, 0) Right (Suc 2))) (snd (ahead (0, 0) Right (Suc 2))) \<and>
      cellAt ?g (fst (ahead (0, 0) Right (Suc 2))) (snd (ahead (0, 0) Right (Suc 2))) = Some AST)"
    by (simp add: ahead_def cellAt_def)
  have land: "inBounds ?g (fst (ahead (0, 0) Right (Suc 2))) (snd (ahead (0, 0) Right (Suc 2))) \<and>
      cellAt ?g (fst (ahead (0, 0) Right (Suc 2))) (snd (ahead (0, 0) Right (Suc 2))) = Some EMPTY"
    by (simp add: ahead_def cellAt_def inBounds_def cols_def)
  note t = moveGen_push_run [OF f k run stop]
  from t land have "moveDir ?g (0, 0) Right \<noteq> None"
    by blast
  moreover have "moveGen ?g = [[[EMPTY, PROBE, AST, AST]]]"
    by code_simp
  moreover have "cellAt ?g 0 3 = Some EMPTY"
    by (simp add: cellAt_def)
  ultimately show ?thesis
    using f by simp
qed

section \<open>Conservation of the cells\<close>

lemma count_list_update:
  "i < length xs \<Longrightarrow>
   count_list (xs[i := v]) w + (if xs ! i = w then 1 else 0) =
   count_list xs w + (if v = w then 1 else 0)"
proof (induction xs arbitrary: i)
  case Nil
  then show ?case by simp
next
  case (Cons x xs)
  show ?case
  proof (cases i)
    case 0
    then show ?thesis by simp
  next
    case (Suc n)
    with Cons.prems have "n < length xs" by simp
    from Cons.IH [OF this] Suc show ?thesis by (simp split: if_splits)
  qed
qed

lemma count_concat_update:
  "r < length g \<Longrightarrow>
   count_list (concat (g[r := row'])) w + count_list (g ! r) w =
   count_list (concat g) w + count_list row' w"
proof (induction g arbitrary: r)
  case Nil
  then show ?case by simp
next
  case (Cons x xs)
  show ?case
  proof (cases r)
    case 0
    then show ?thesis by simp
  next
    case (Suc n)
    with Cons.prems have "n < length xs" by simp
    from Cons.IH [OF this] Suc show ?thesis by simp
  qed
qed

lemma countCells_setCell:
  assumes "cellAt g r c = Some old"
  shows "countCells (setCell g r c v) w + (if old = w then 1 else 0) =
    countCells g w + (if v = w then 1 else 0)"
proof -
  from assms have rng: "nat r < length g" "nat c < length (g ! nat r)" "g ! nat r ! nat c = old"
    by (auto simp: cellAt_def split: if_splits)
  have "count_list (concat (g[nat r := (g ! nat r)[nat c := v]])) w + count_list (g ! nat r) w =
      count_list (concat g) w + count_list ((g ! nat r)[nat c := v]) w"
    using rng(1) by (rule count_concat_update)
  moreover have "count_list ((g ! nat r)[nat c := v]) w + (if old = w then 1 else 0) =
      count_list (g ! nat r) w + (if v = w then 1 else 0)"
    using count_list_update [OF rng(2), of v w] rng(3) by simp
  ultimately show ?thesis
    unfolding countCells_def setCell_def by arith
qed

lemma shiftChain_count:
  assumes "\<forall>i. j \<le> i \<and> i < m \<longrightarrow> cellAt ng (fst (ahead p d i)) (snd (ahead p d i)) = Some AST"
    and "cellAt ng (fst (ahead p d m)) (snd (ahead p d m)) = Some EMPTY"
    and "j \<le> m"
  shows "countCells (shiftChain d (map (ahead p d) [j..<m]) ng) w = countCells ng w"
  using assms
proof (induction "m - j" arbitrary: j)
  case 0
  then show ?case by simp
next
  case (Suc n)
  then have lt: "j < m" by simp
  let ?A = "ahead p d"
  let ?R' = "shiftChain d (map ?A [Suc j..<m]) ng"
  let ?R'' = "setCell ?R' (fst (?A (Suc j))) (snd (?A (Suc j))) AST"
  have IH: "countCells ?R' w = countCells ng w"
    using Suc.hyps(2) Suc.prems lt by (intro Suc.hyps(1)) auto
  have defd: "\<forall>i. Suc j \<le> i \<and> i \<le> m \<longrightarrow> cellAt ng (fst (?A i)) (snd (?A i)) \<noteq> None"
    using Suc.prems(1,2) by (auto simp: le_less)
  have cells: "cellAt ?R' r c =
    (if Suc j < m \<and> (r, c) = ?A (Suc j) then Some EMPTY
     else if \<exists>i. Suc j < i \<and> i \<le> m \<and> (r, c) = ?A i then Some AST
     else cellAt ng r c)" for r c
    using lt by (intro shiftChain_cells [OF defd]) simp
  have e1: "cellAt ?R' (fst (?A (Suc j))) (snd (?A (Suc j))) = Some EMPTY"
  proof (cases "Suc j < m")
    case True
    then show ?thesis unfolding cells by (simp only: prod.collapse refl simp_thms if_True)
  next
    case False
    with lt have "Suc j = m" by simp
    then show ?thesis unfolding cells using Suc.prems(2) by auto
  qed
  have "?A j \<noteq> ?A (Suc j)" "\<not> (\<exists>i. Suc j < i \<and> i \<le> m \<and> ?A j = ?A i)"
    by auto
  then have "cellAt ?R' (fst (?A j)) (snd (?A j)) = cellAt ng (fst (?A j)) (snd (?A j))"
    unfolding cells by (simp only: prod.collapse simp_thms if_False)
  then have e2': "cellAt ?R' (fst (?A j)) (snd (?A j)) = Some AST"
    using Suc.prems(1) lt by simp
  have e2: "cellAt ?R'' (fst (?A j)) (snd (?A j)) = Some AST"
    using e1 e2' by (auto simp: cellAt_setCell pos_eq)
  have R: "shiftChain d (map ?A [j..<m]) ng = setCell ?R'' (fst (?A j)) (snd (?A j)) EMPTY"
    using lt by (simp add: upt_conv_Cons shiftChain_Cons ahead_Suc)
  from countCells_setCell [OF e1, of AST w] countCells_setCell [OF e2, of EMPTY w] IH
  show ?case unfolding R by (simp split: if_splits)
qed

lemma run_exists:
  assumes p: "inBounds g pr pc"
    and first: "inBounds g (fst (ahead (pr, pc) d 1)) (snd (ahead (pr, pc) d 1)) \<and>
      cellAt g (fst (ahead (pr, pc) d 1)) (snd (ahead (pr, pc) d 1)) = Some AST"
  shows "\<exists>k\<ge>1.
    (\<forall>i. 1 \<le> i \<and> i \<le> k \<longrightarrow>
      inBounds g (fst (ahead (pr, pc) d i)) (snd (ahead (pr, pc) d i)) \<and>
      cellAt g (fst (ahead (pr, pc) d i)) (snd (ahead (pr, pc) d i)) = Some AST) \<and>
    \<not> (inBounds g (fst (ahead (pr, pc) d (Suc k))) (snd (ahead (pr, pc) d (Suc k))) \<and>
      cellAt g (fst (ahead (pr, pc) d (Suc k))) (snd (ahead (pr, pc) d (Suc k))) = Some AST)"
proof -
  define Q where "Q i \<longleftrightarrow> inBounds g (fst (ahead (pr, pc) d i)) (snd (ahead (pr, pc) d i)) \<and>
      cellAt g (fst (ahead (pr, pc) d i)) (snd (ahead (pr, pc) d i)) = Some AST" for i
  define N where "N = Suc (length g + cols g)"
  have "\<not> inBounds g (fst (ahead (pr, pc) d N)) (snd (ahead (pr, pc) d N))"
    using p by (cases d) (auto simp: inBounds_def ahead_def N_def)
  then have ex: "\<exists>i. 1 \<le> i \<and> \<not> Q i"
    by (intro exI [of _ N]) (simp add: Q_def N_def)
  define m where "m = (LEAST i. 1 \<le> i \<and> \<not> Q i)"
  have m: "1 \<le> m \<and> \<not> Q m"
    unfolding m_def using ex by (rule LeastI_ex)
  have least: "Q i" if "1 \<le> i" "i < m" for i
    using not_less_Least [of i "\<lambda>i. 1 \<le> i \<and> \<not> Q i"] that unfolding m_def by blast
  have "Q 1" using first by (simp add: Q_def)
  with m have "m \<noteq> 1" by auto
  with m have m2: "2 \<le> m" by simp
  then obtain k where k: "m = Suc k" "1 \<le> k"
    by (cases m) auto
  have "\<forall>i. 1 \<le> i \<and> i \<le> k \<longrightarrow> Q i"
    using least k by simp
  moreover have "\<not> Q (Suc k)" using m k by simp
  ultimately show ?thesis
    using k(2) unfolding Q_def by blast
qed

lemma moveDir_result:
  assumes probe: "findCell g PROBE = Some (pr, pc)"
    and m: "moveDir g (pr, pc) d = Some ng"
  obtains (step) "inBounds g (pr + dr d) (pc + dc d)"
      "cellAt g (pr + dr d) (pc + dc d) = Some EMPTY \<or> cellAt g (pr + dr d) (pc + dc d) = Some DOCK"
      "ng = setCell (setCell g pr pc EMPTY) (pr + dr d) (pc + dc d) PROBE"
  | (push) k where "1 \<le> k"
      "\<forall>i. 1 \<le> i \<and> i \<le> k \<longrightarrow>
         cellAt g (fst (ahead (pr, pc) d i)) (snd (ahead (pr, pc) d i)) = Some AST"
      "cellAt g (fst (ahead (pr, pc) d (Suc k))) (snd (ahead (pr, pc) d (Suc k))) = Some EMPTY"
      "ng = setCell (shiftChain d (map (ahead (pr, pc) d) [1..<Suc k]) (setCell g pr pc EMPTY))
               (pr + dr d) (pc + dc d) PROBE"
proof -
  have inb: "inBounds g (pr + dr d) (pc + dc d)"
    using m by (auto simp: moveDir_def Let_def split: if_splits)
  consider "cellAt g (pr + dr d) (pc + dc d) = Some EMPTY \<or> cellAt g (pr + dr d) (pc + dc d) = Some DOCK"
    | "cellAt g (pr + dr d) (pc + dc d) = Some AST"
    using m by (auto simp: moveDir_def Let_def split: if_splits)
  then show thesis
  proof cases
    case 1
    then have "ng = setCell (setCell g pr pc EMPTY) (pr + dr d) (pc + dc d) PROBE"
      using m inb by (auto simp: moveDir_def Let_def split: if_splits)
    with inb 1 show thesis by (rule step)
  next
    case 2
    have "inBounds g pr pc" using probe by (rule findCell_Some)
    moreover have "inBounds g (fst (ahead (pr, pc) d 1)) (snd (ahead (pr, pc) d 1)) \<and>
      cellAt g (fst (ahead (pr, pc) d 1)) (snd (ahead (pr, pc) d 1)) = Some AST"
      using inb 2 by (simp add: ahead_1)
    ultimately obtain k where k: "1 \<le> k"
      and run: "\<forall>i. 1 \<le> i \<and> i \<le> k \<longrightarrow>
        inBounds g (fst (ahead (pr, pc) d i)) (snd (ahead (pr, pc) d i)) \<and>
        cellAt g (fst (ahead (pr, pc) d i)) (snd (ahead (pr, pc) d i)) = Some AST"
      and stop: "\<not> (inBounds g (fst (ahead (pr, pc) d (Suc k))) (snd (ahead (pr, pc) d (Suc k))) \<and>
        cellAt g (fst (ahead (pr, pc) d (Suc k))) (snd (ahead (pr, pc) d (Suc k))) = Some AST)"
      using run_exists [of g pr pc d] by blast
    from moveDir_push [OF run k stop] m
    have "cellAt g (fst (ahead (pr, pc) d (Suc k))) (snd (ahead (pr, pc) d (Suc k))) = Some EMPTY"
      and "ng = setCell (shiftChain d (map (ahead (pr, pc) d) [1..<Suc k]) (setCell g pr pc EMPTY))
               (pr + dr d) (pc + dc d) PROBE"
      by (auto split: if_splits)
    with k run show thesis by (intro push [of k]) auto
  qed
qed

lemma moveDir_shape:
  assumes "findCell g PROBE = Some (pr, pc)" and "moveDir g (pr, pc) d = Some ng"
  shows "map length ng = map length g"
  using assms by (cases rule: moveDir_result) simp_all

lemma moveDir_cells:
  assumes probe: "findCell g PROBE = Some (pr, pc)" and m: "moveDir g (pr, pc) d = Some ng"
  shows "cellAt ng pr pc = Some EMPTY"
    and "cellAt ng (pr + dr d) (pc + dc d) = Some PROBE"
    and "cellAt g r c = Some WALL \<longleftrightarrow> cellAt ng r c = Some WALL"
    and "cellAt g r c = Some DOCK \<Longrightarrow> (r, c) \<noteq> (pr + dr d, pc + dc d) \<Longrightarrow> cellAt ng r c = Some DOCK"
    and "cellAt ng r c = Some DOCK \<Longrightarrow> cellAt g r c = Some DOCK"
proof -
  have p: "cellAt g pr pc = Some PROBE" using probe by (rule findCell_Some)
  then have p': "cellAt g pr pc \<noteq> None" by simp
  have ne: "(pr, pc) \<noteq> (pr + dr d, pc + dc d)"
    using dir_moves [of d] by auto
  have all: "cellAt ng pr pc = Some EMPTY \<and>
    cellAt ng (pr + dr d) (pc + dc d) = Some PROBE \<and>
    (cellAt g r c = Some WALL \<longleftrightarrow> cellAt ng r c = Some WALL) \<and>
    (cellAt g r c = Some DOCK \<longrightarrow> (r, c) \<noteq> (pr + dr d, pc + dc d) \<longrightarrow> cellAt ng r c = Some DOCK) \<and>
    (cellAt ng r c = Some DOCK \<longrightarrow> cellAt g r c = Some DOCK)"
    using probe m
  proof (cases rule: moveDir_result)
    case step
    have d1: "cellAt (setCell g pr pc EMPTY) (pr + dr d) (pc + dc d) \<noteq> None"
      using step(2) by auto
    show ?thesis
      unfolding step(3) cellAt_setCell [OF d1] cellAt_setCell [OF p']
      using ne p step(2) by auto
  next
    case (push k)
    note cells = moveDir_push_cells [OF p' push(2) push(1) push(3), folded push(4)]
    have seg: "cellAt g r c = Some AST \<or> cellAt g r c = Some EMPTY"
      if "\<exists>i. 1 < i \<and> i \<le> Suc k \<and> (r, c) = ahead (pr, pc) d i" for r c
    proof -
      from that obtain i where i: "1 < i" "i \<le> Suc k" "(r, c) = ahead (pr, pc) d i" by blast
      then have "r = fst (ahead (pr, pc) d i)" "c = snd (ahead (pr, pc) d i)"
        by (metis fst_conv, metis snd_conv)
      then show ?thesis
        using push(2,3) i(1,2) by (cases "i = Suc k") auto
    qed
    have a1: "cellAt g (pr + dr d) (pc + dc d) = Some AST"
      using push(1,2) ahead_1 [of pr pc d] by (metis One_nat_def fst_conv snd_conv order_refl)
    show ?thesis
      unfolding cells using ne p a1 seg [of r c] seg [of pr pc] seg [of "pr + dr d" "pc + dc d"]
      by (auto simp: ahead_1)
  qed
  then show "cellAt ng pr pc = Some EMPTY"
    and "cellAt ng (pr + dr d) (pc + dc d) = Some PROBE"
    and "cellAt g r c = Some WALL \<longleftrightarrow> cellAt ng r c = Some WALL"
    and "cellAt g r c = Some DOCK \<Longrightarrow> (r, c) \<noteq> (pr + dr d, pc + dc d) \<Longrightarrow> cellAt ng r c = Some DOCK"
    and "cellAt ng r c = Some DOCK \<Longrightarrow> cellAt g r c = Some DOCK"
    by blast+
qed

lemma moveDir_counts:
  assumes probe: "findCell g PROBE = Some (pr, pc)" and m: "moveDir g (pr, pc) d = Some ng"
  shows "countCells ng PROBE = countCells g PROBE"
    and "countCells ng AST = countCells g AST"
    and "countCells ng WALL = countCells g WALL"
proof -
  have p: "cellAt g pr pc = Some PROBE" using probe by (rule findCell_Some)
  have ne: "(pr, pc) \<noteq> (pr + dr d, pc + dc d)"
    using dir_moves [of d] by auto
  let ?g0 = "setCell g pr pc EMPTY"
  have g0: "cellAt ?g0 r c = (if (r, c) = (pr, pc) then Some EMPTY else cellAt g r c)" for r c
    using p by (simp add: cellAt_setCell)
  have c0: "countCells ?g0 w + (if PROBE = w then 1 else 0) =
      countCells g w + (if EMPTY = w then 1 else 0)" for w
    by (rule countCells_setCell [OF p])
  have "countCells ng PROBE = countCells g PROBE \<and> countCells ng AST = countCells g AST \<and>
    countCells ng WALL = countCells g WALL"
    using probe m
  proof (cases rule: moveDir_result)
    case step
    then obtain x where x: "cellAt g (pr + dr d) (pc + dc d) = Some x" "x = EMPTY \<or> x = DOCK"
      by blast
    then have "cellAt ?g0 (pr + dr d) (pc + dc d) = Some x"
      using ne by (auto simp: g0)
    note c1 = countCells_setCell [OF this, of PROBE]
    from c1 [of PROBE] c1 [of AST] c1 [of WALL] c0 [of PROBE] c0 [of AST] c0 [of WALL] x(2)
    show ?thesis unfolding step(3) by auto
  next
    case (push k)
    let ?A = "ahead (pr, pc) d"
    have neA: "(pr, pc) \<noteq> ?A i" if "0 < i" for i
      using that ahead_inj [of "(pr, pc)" d 0 i] by simp
    have off: "cellAt ?g0 (fst (?A i)) (snd (?A i)) = cellAt g (fst (?A i)) (snd (?A i))"
      if "0 < i" for i
    proof -
      have "(fst (?A i), snd (?A i)) \<noteq> (pr, pc)"
        using neA [OF that] by (simp only: prod.collapse) (rule not_sym)
      then show ?thesis unfolding g0 by (simp only: if_False)
    qed
    have r0: "\<forall>i. 1 \<le> i \<and> i < Suc k \<longrightarrow> cellAt ?g0 (fst (?A i)) (snd (?A i)) = Some AST"
      using push(2) by (simp add: off)
    have l0: "cellAt ?g0 (fst (?A (Suc k))) (snd (?A (Suc k))) = Some EMPTY"
      using push(3) by (simp add: off)
    let ?R = "shiftChain d (map ?A [1..<Suc k]) ?g0"
    have cR: "countCells ?R w = countCells ?g0 w" for w
      by (rule shiftChain_count [OF r0 l0]) simp
    have defd: "\<forall>i. 1 \<le> i \<and> i \<le> Suc k \<longrightarrow> cellAt ?g0 (fst (?A i)) (snd (?A i)) \<noteq> None"
      using push(2,3) by (auto simp: le_Suc_eq)
    have cells: "cellAt ?R r c =
      (if 1 < Suc k \<and> (r, c) = ?A 1 then Some EMPTY
       else if \<exists>i. 1 < i \<and> i \<le> Suc k \<and> (r, c) = ?A i then Some AST
       else cellAt ?g0 r c)" for r c
      by (rule shiftChain_cells [OF defd]) simp
    have "cellAt ?R (fst (?A 1)) (snd (?A 1)) = Some EMPTY"
      unfolding cells using push(1) by simp
    then have "cellAt ?R (pr + dr d) (pc + dc d) = Some EMPTY"
      by (simp add: ahead_1)
    note c1 = countCells_setCell [OF this, of PROBE]
    from c1 [of PROBE] c1 [of AST] c1 [of WALL] c0 [of PROBE] c0 [of AST] c0 [of WALL]
      cR [of PROBE] cR [of AST] cR [of WALL]
    show ?thesis unfolding push(4) by (simp del: upt_Suc)
  qed
  then show "countCells ng PROBE = countCells g PROBE"
    and "countCells ng AST = countCells g AST"
    and "countCells ng WALL = countCells g WALL"
    by blast+
qed

lemma set_map_filter: "set (List.map_filter f xs) = {y. \<exists>x\<in>set xs. f x = Some y}"
  by (induction xs) (auto simp: List.map_filter_simps split: option.splits)

lemma dir_in_DIRS [simp]: "d \<in> set DIRS"
  by (cases d) (simp_all add: DIRS_def)

lemma moveGen_iff:
  "ng \<in> set (moveGen g) \<longleftrightarrow>
   (\<exists>pr pc d. findCell g PROBE = Some (pr, pc) \<and> moveDir g (pr, pc) d = Some ng)"
proof (cases "findCell g PROBE")
  case None
  then show ?thesis by (simp add: moveGen_def)
next
  case (Some p)
  obtain pr pc where p: "p = (pr, pc)" by (cases p)
  have "ng \<in> set (moveGen g) \<longleftrightarrow> (\<exists>d. moveDir g (pr, pc) d = Some ng)"
    using Some p dir_in_DIRS by (auto simp: moveGen_def set_map_filter)
  then show ?thesis using Some p by simp
qed

text \<open>
  Claim C4. A successor that \<open>moveGen\<close> returns for a grid with exactly one Probe cell has
  exactly one Probe cell and as many Obstacle cells as the grid, and its Wall cells are
  those of the grid, at the same positions.
\<close>

theorem moveGen_conservation:
  assumes "countCells g PROBE = 1" and "ng \<in> set (moveGen g)"
  shows "countCells ng PROBE = 1 \<and> countCells ng AST = countCells g AST \<and>
    (\<forall>r c. cellAt g r c = Some WALL \<longleftrightarrow> cellAt ng r c = Some WALL)"
proof -
  from assms(2) obtain pr pc d where
    p: "findCell g PROBE = Some (pr, pc)" and m: "moveDir g (pr, pc) d = Some ng"
    unfolding moveGen_iff by blast
  show ?thesis
    using moveDir_counts(1,2) [OF p m] moveDir_cells(3) [OF p m] assms(1) by simp
qed

theorem moveGen_conservation_witness:
  "countCells [[PROBE, AST, EMPTY], [WALL, DOCK, EMPTY]] PROBE = 1 \<and>
   [[EMPTY, PROBE, AST], [WALL, DOCK, EMPTY]] \<in> set (moveGen [[PROBE, AST, EMPTY], [WALL, DOCK, EMPTY]]) \<and>
   countCells [[EMPTY, PROBE, AST], [WALL, DOCK, EMPTY]] PROBE = 1 \<and>
   countCells [[EMPTY, PROBE, AST], [WALL, DOCK, EMPTY]] AST =
     countCells [[PROBE, AST, EMPTY], [WALL, DOCK, EMPTY]] AST"
proof -
  have a: "countCells [[PROBE, AST, EMPTY], [WALL, DOCK, EMPTY]] PROBE = 1"
    by code_simp
  have b: "[[EMPTY, PROBE, AST], [WALL, DOCK, EMPTY]]
      \<in> set (moveGen [[PROBE, AST, EMPTY], [WALL, DOCK, EMPTY]])"
    by code_simp
  from moveGen_conservation [OF a b] a b show ?thesis by simp
qed

section \<open>Keys: splitting, joining and injectivity\<close>

lemma splitStr_nonempty [simp]: "splitStr sep s \<noteq> []"
  by (induction s) (auto split: list.splits)

lemma splitStr_no_sep: "sep \<notin> set s \<Longrightarrow> splitStr sep s = [s]"
  by (induction s) auto

lemma splitStr_append_sep:
  "sep \<notin> set x \<Longrightarrow> splitStr sep (x @ sep # s) = x # splitStr sep s"
  by (induction x) auto

lemma splitStr_joinStr:
  assumes "xs \<noteq> []" and "\<forall>x\<in>set xs. sep \<notin> set x"
  shows "splitStr sep (joinStr [sep] xs) = xs"
  using assms
proof (induction "[sep]" xs rule: joinStr.induct)
  case 1
  then show ?case by simp
next
  case (2 x)
  then show ?case by (simp add: splitStr_no_sep)
next
  case (3 x y ys)
  then show ?case by (simp add: splitStr_append_sep)
qed

lemma numberCell_cellStr [simp]: "numberCell (cellStr x) = x"
  by (cases x) (simp_all add: numberCell_def)

lemma cellStr_inj: "cellStr x = cellStr y \<Longrightarrow> x = y"
  by (metis numberCell_cellStr)

lemma cellStr_no_comma [simp]: "CHR '','' \<notin> set (cellStr x)"
  by (cases x) simp_all

lemma cellStr_no_bar [simp]: "CHR ''|'' \<notin> set (cellStr x)"
  by (cases x) simp_all

lemma set_joinStr: "set (joinStr sep xs) \<subseteq> set sep \<union> \<Union> (set ` set xs)"
  by (induction sep xs rule: joinStr.induct) auto

lemma rowStr_no_bar: "CHR ''|'' \<notin> set (joinStr '','' (map cellStr row))"
proof
  assume "CHR ''|'' \<in> set (joinStr '','' (map cellStr row))"
  then have "CHR ''|'' \<in> set '','' \<union> \<Union> (set ` set (map cellStr row))"
    using set_joinStr by blast
  then show False by auto
qed

lemma joinStr_Nil_iff: "(\<forall>x\<in>set xs. x \<noteq> []) \<Longrightarrow> joinStr sep xs = [] \<longleftrightarrow> xs = []"
  by (induction sep xs rule: joinStr.induct) auto

lemma cellStr_nonempty [simp]: "cellStr x \<noteq> []"
  by (cases x) simp_all

lemma rowStr_Nil_iff [simp]: "joinStr '','' (map cellStr row) = [] \<longleftrightarrow> row = []"
  using joinStr_Nil_iff [of "map cellStr row" "'',''"] by auto

text \<open>What \<open>deserializeGrid\<close> rebuilds from a row: the row itself, or one Empty cell for
  an empty row.\<close>

lemma deserialize_row:
  "map numberCell (splitStr (CHR '','') (joinStr '','' (map cellStr row))) =
     (if row = [] then [EMPTY] else row)"
proof (cases "row = []")
  case True
  then show ?thesis by (simp add: numberCell_def)
next
  case False
  then have "splitStr (CHR '','') (joinStr '','' (map cellStr row)) = map cellStr row"
    by (intro splitStr_joinStr) auto
  then show ?thesis using False by (simp add: comp_def)
qed

lemma splitStr_serializeGrid:
  "g \<noteq> [] \<Longrightarrow>
   splitStr (CHR ''|'') (serializeGrid g) = map (\<lambda>row. joinStr '','' (map cellStr row)) g"
  unfolding serializeGrid_def
  by (intro splitStr_joinStr) (auto simp: rowStr_no_bar)

lemma deserializeGrid_serializeGrid:
  assumes "g \<noteq> []" and "length g = n"
  shows "deserializeGrid (serializeGrid g) n m = map (\<lambda>row. if row = [] then [EMPTY] else row) g"
  using assms
  by (simp add: deserializeGrid_def Let_def splitStr_serializeGrid comp_def deserialize_row)

lemma rowStr_inj:
  assumes "joinStr '','' (map cellStr r1) = joinStr '','' (map cellStr r2)"
    and "length r1 = length r2"
  shows "r1 = r2"
proof (cases "r1 = []")
  case True
  with assms(2) show ?thesis by simp
next
  case False
  with assms(2) have "r2 \<noteq> []" by auto
  then have b: "map numberCell (splitStr (CHR '','') (joinStr '','' (map cellStr r2))) = r2"
    by (simp add: deserialize_row)
  from False have a: "map numberCell (splitStr (CHR '','') (joinStr '','' (map cellStr r1))) = r1"
    by (simp add: deserialize_row)
  from a [unfolded assms(1)] b show ?thesis by (rule trans [OF sym])
qed

lemma serializeGrid_inj:
  assumes "serializeGrid g = serializeGrid h" and "map length g = map length h"
  shows "g = h"
proof (cases "g = []")
  case True
  with assms(2) show ?thesis by simp
next
  case False
  with assms(2) have h: "h \<noteq> []" by auto
  from splitStr_serializeGrid [OF False] splitStr_serializeGrid [OF h] assms(1)
  have rows: "map (\<lambda>row. joinStr '','' (map cellStr row)) g =
      map (\<lambda>row. joinStr '','' (map cellStr row)) h"
    by simp
  have len: "length g = length h"
    using assms(2) by (rule map_eq_imp_length_eq)
  show ?thesis
  proof (rule nth_equalityI [OF len])
    fix i
    assume i: "i < length g"
    then have "joinStr '','' (map cellStr (g ! i)) = joinStr '','' (map cellStr (h ! i))"
      using rows len by (metis nth_map)
    moreover have "length (g ! i) = length (h ! i)"
      using assms(2) i len by (metis nth_map)
    ultimately show "g ! i = h ! i" by (rule rowStr_inj)
  qed
qed

lemma serializeGrid_nonempty:
  assumes "cellAt g r c \<noteq> None"
  shows "serializeGrid g \<noteq> []"
proof
  assume e: "serializeGrid g = []"
  from assms have g: "g \<noteq> []" and row: "g ! nat r \<noteq> []" and r: "nat r < length g"
    by (auto simp: cellAt_def split: if_splits)
  from splitStr_serializeGrid [OF g] e
  have "map (\<lambda>row. joinStr '','' (map cellStr row)) g = [[]]"
    by simp
  then have "length g = 1" "joinStr '','' (map cellStr (g ! 0)) = []"
    by (metis length_map length_Cons list.size(3) One_nat_def, metis g length_greater_0_conv nth_Cons_0 nth_map)
  with row r show False by simp
qed

section \<open>Walks and parent links\<close>

lemma isWalk_nonempty: "isWalk gs \<Longrightarrow> gs \<noteq> []"
  by auto

lemma isWalk_snoc:
  "isWalk (gs @ [g]) \<Longrightarrow> h \<in> set (moveGen g) \<Longrightarrow> isWalk (gs @ [g, h])"
proof (induction gs)
  case Nil
  then show ?case by simp
next
  case (Cons a gs)
  then show ?case by (cases gs) auto
qed

lemma isWalk_take: "isWalk gs \<Longrightarrow> 0 < n \<Longrightarrow> isWalk (take n gs)"
proof (induction gs arbitrary: n rule: isWalk.induct)
  case 1
  then show ?case by simp
next
  case (2 g)
  then show ?case by (cases n) simp_all
next
  case (3 g h gs)
  then obtain k where n: "n = Suc k" by (cases n) auto
  show ?case
  proof (cases k)
    case 0
    with n show ?thesis by simp
  next
    case (Suc j)
    with "3.IH" [of "Suc j"] "3.prems" n show ?thesis by simp
  qed
qed

lemma isWalk_step: "isWalk gs \<Longrightarrow> Suc i < length gs \<Longrightarrow> gs ! Suc i \<in> set (moveGen (gs ! i))"
proof (induction gs arbitrary: i rule: isWalk.induct)
  case (3 g h gs)
  then show ?case by (cases i) auto
qed simp_all

lemma moveGen_shape: "h \<in> set (moveGen g) \<Longrightarrow> map length h = map length g"
  unfolding moveGen_iff using moveDir_shape by blast

lemma isWalk_shape: "isWalk gs \<Longrightarrow> g \<in> set gs \<Longrightarrow> map length g = map length (hd gs)"
proof (induction gs rule: isWalk.induct)
  case (3 a h gs)
  then show ?case using moveGen_shape [of h a] by auto
qed simp_all

lemma chain_walk: "parentChain parent start gs \<Longrightarrow> isWalk gs \<and> hd gs = start"
proof (induction rule: parentChain.induct)
  case chain_start
  then show ?case by simp
next
  case (chain_step gs g h)
  then have "isWalk (gs @ [g, h])"
    by (intro isWalk_snoc) simp_all
  moreover have "hd (gs @ [g, h]) = hd (gs @ [g])"
    by (cases gs) simp_all
  ultimately show ?case using chain_step.IH by simp
qed

lemma chain_keys: "parentChain parent start gs \<Longrightarrow> g \<in> set gs \<Longrightarrow> parent (serializeGrid g) \<noteq> None"
  by (induction rule: parentChain.induct) auto

lemma chain_upd:
  "parentChain parent start gs \<Longrightarrow> parent k = None \<Longrightarrow> parentChain (parent(k \<mapsto> v)) start gs"
proof (induction rule: parentChain.induct)
  case chain_start
  then show ?case by (auto intro!: parentChain.chain_start)
next
  case (chain_step gs g h)
  then show ?case by (auto intro!: parentChain.chain_step)
qed

lemma bfsPath_chain:
  "parentChain parent start gs \<Longrightarrow>
   bfsPath parent n m (Some (serializeGrid (last gs))) acc =
     Some (map (\<lambda>g. deserializeGrid (serializeGrid g) n m) gs @ acc)"
proof (induction arbitrary: acc rule: parentChain.induct)
  case chain_start
  then show ?case
    by (subst bfsPath.simps) (simp add: bfsPath.simps [of _ _ _ None])
next
  case (chain_step gs g h)
  from chain_step.IH [of "deserializeGrid (serializeGrid h) n m # acc"] chain_step.hyps(3)
  show ?case by (subst bfsPath.simps) simp
qed

lemma dfsPath_chain:
  "parentChain parent start gs \<Longrightarrow> \<forall>g\<in>set gs. serializeGrid g \<noteq> [] \<Longrightarrow>
   dfsPath parent n m (serializeGrid (last gs)) acc =
     Some (map (\<lambda>g. deserializeGrid (serializeGrid g) n m) gs @ acc)"
proof (induction arbitrary: acc rule: parentChain.induct)
  case chain_start
  then show ?case
    by (subst dfsPath.simps) simp
next
  case (chain_step gs g h)
  from chain_step.IH [of "deserializeGrid (serializeGrid h) n m # acc"] chain_step.hyps(3)
    chain_step.prems
  show ?case by (subst dfsPath.simps) simp
qed

lemma parentChain_shape:
  assumes "parentChain parent start ws"
  shows "map length (last ws) = map length start"
proof -
  from chain_walk [OF assms] have w: "isWalk ws" "hd ws = start" by simp_all
  then have "last ws \<in> set ws" by (intro last_in_set isWalk_nonempty)
  from isWalk_shape [OF w(1) this] w(2) show ?thesis by simp
qed

lemma chain_of_frontier:
  assumes "chained start parent" and "map length g = map length start"
    and "parent (serializeGrid g) \<noteq> None"
  obtains ws where "parentChain parent start ws" "last ws = g"
proof -
  from assms(1,3) obtain ws where ws: "parentChain parent start ws"
      "serializeGrid (last ws) = serializeGrid g"
    unfolding chained_def by blast
  from parentChain_shape [OF ws(1)] assms(2) have "map length (last ws) = map length g"
    by simp
  with ws(2) have "last ws = g" by (rule serializeGrid_inj)
  with ws(1) show thesis by (rule that)
qed

lemma parentChain_snoc:
  assumes "parentChain parent start ws" and "h \<in> set (moveGen (last ws))"
    and "parent (serializeGrid h) = Some (Some (serializeGrid (last ws)))"
  shows "parentChain parent start (ws @ [h])"
proof -
  from chain_walk [OF assms(1)] have "ws \<noteq> []" by auto
  then have ws: "ws = butlast ws @ [last ws]" by simp
  from assms(1) have "parentChain parent start (butlast ws @ [last ws])"
    using ws by simp
  from chain_step [OF this assms(2,3)] show ?thesis
    using ws by (metis append.assoc append_Cons append_Nil)
qed

text \<open>The effect of \<^verbatim>\<open>if (!parent.has(nk)) parent.set(nk, key)\<close> on the invariant.\<close>

lemma chained_set:
  assumes ch: "chained start parent"
    and ws: "parentChain parent start ws"
    and h: "h \<in> set (moveGen (last ws))"
  defines "parent' \<equiv>
    (if parent (serializeGrid h) = None
     then parent(serializeGrid h \<mapsto> Some (serializeGrid (last ws))) else parent)"
  shows "chained start parent'"
    and "parentChain parent' start ws"
    and "parent' (serializeGrid h) \<noteq> None"
    and "\<And>k. parent k \<noteq> None \<Longrightarrow> parent' k \<noteq> None"
proof -
  show keep: "parentChain parent' start ws"
    using ws by (auto simp: parent'_def intro: chain_upd)
  show "parent' (serializeGrid h) \<noteq> None"
    by (simp add: parent'_def)
  show "\<And>k. parent k \<noteq> None \<Longrightarrow> parent' k \<noteq> None"
    by (simp add: parent'_def)
  show "chained start parent'"
  proof (cases "parent (serializeGrid h) = None")
    case False
    then show ?thesis using ch by (auto simp: parent'_def)
  next
    case True
    then have p': "parent' = parent(serializeGrid h \<mapsto> Some (serializeGrid (last ws)))"
      by (simp add: parent'_def)
    show ?thesis
      unfolding chained_def
    proof (intro allI impI)
      fix k
      assume k: "parent' k \<noteq> None"
      show "\<exists>vs. parentChain parent' start vs \<and> serializeGrid (last vs) = k"
      proof (cases "k = serializeGrid h")
        case True
        have "parent' (serializeGrid h) = Some (Some (serializeGrid (last ws)))"
          by (simp add: p')
        from parentChain_snoc [OF keep h this] True show ?thesis
          by (intro exI [of _ "ws @ [h]"]) simp
      next
        case False
        with k have "parent k \<noteq> None" by (simp add: p')
        with ch obtain vs where "parentChain parent start vs" "serializeGrid (last vs) = k"
          unfolding chained_def by blast
        then show ?thesis
          using True unfolding p' by (intro exI [of _ vs]) (simp add: chain_upd)
      qed
    qed
  qed
qed

section \<open>Invariant rules of the three loops\<close>

text \<open>Each loop returns, whatever the ceiling: the keys of the grids that have the row
  lengths of the start grid are finitely many, every expansion adds one of them to
  \<^verbatim>\<open>seen\<close>, and every other iteration shortens the frontier. The rules below
  carry an invariant through a loop along this order.\<close>

lemma UNIV_cell: "(UNIV :: cell set) = {EMPTY, WALL, AST, PROBE, DOCK}"
  by (auto intro: cell.exhaust)

lemma finite_keysOf: "finite (keysOf start)"
proof -
  let ?M = "sum_list (map length start)"
  let ?rows = "{row :: cell list. set row \<subseteq> UNIV \<and> length row \<le> ?M}"
  have fr: "finite ?rows"
    by (rule finite_lists_length_le) (simp add: UNIV_cell)
  have "{g. map length g = map length start} \<subseteq> {g. set g \<subseteq> ?rows \<and> length g = length start}"
  proof
    fix g :: grid
    assume "g \<in> {g. map length g = map length start}"
    then have eq: "map length g = map length start" by simp
    then have len: "length g = length start" by (rule map_eq_imp_length_eq)
    have "length row \<le> ?M" if "row \<in> set g" for row
    proof -
      from that have "length row \<in> set (map length g)" by simp
      then have "length row \<in> set (map length start)" using eq by simp
      then show ?thesis by (intro member_le_sum_list) simp_all
    qed
    with len show "g \<in> {g. set g \<subseteq> ?rows \<and> length g = length start}" by auto
  qed
  moreover have "finite {g. set g \<subseteq> ?rows \<and> length g = length start}"
    using fr by (rule finite_lists_length_eq)
  ultimately have "finite {g :: grid. map length g = map length start}"
    by (rule finite_subset)
  then show ?thesis unfolding keysOf_def by (rule finite_imageI)
qed

lemma keysOf_member: "map length g = map length start \<Longrightarrow> serializeGrid g \<in> keysOf start"
  by (simp add: keysOf_def)

lemma keysOf_fresh:
  assumes "map length g = map length start" and "serializeGrid g \<notin> seen"
  shows "card (keysOf start - insert (serializeGrid g) seen) < card (keysOf start - seen)"
proof -
  have "serializeGrid g \<in> keysOf start - seen"
    using assms by (simp add: keysOf_member)
  moreover have "finite (keysOf start - seen)"
    using finite_keysOf by simp
  ultimately have "card (keysOf start - seen - {serializeGrid g}) < card (keysOf start - seen)"
    by (rule card_Diff1_less [rotated])
  moreover have "keysOf start - insert (serializeGrid g) seen = keysOf start - seen - {serializeGrid g}"
    by auto
  ultimately show ?thesis by simp
qed

lemma dfsPush_stack:
  "foldl (dfsPush key) (parent, rest) nexts = (parent', stack') \<Longrightarrow> stack' = rest @ nexts"
proof (induction nexts arbitrary: parent rest)
  case Nil
  then show ?case by simp
next
  case (Cons h nexts)
  let ?p1 = "if parent (serializeGrid h) = None then parent(serializeGrid h \<mapsto> Some key) else parent"
  have step: "dfsPush key (parent, rest) h = (?p1, rest @ [h])"
    by (simp add: dfsPush_def Let_def)
  from Cons.prems have "foldl (dfsPush key) (?p1, rest @ [h]) nexts = (parent', stack')"
    by (simp only: foldl_Cons step)
  from Cons.IH [OF this] show ?case by simp
qed

lemma sameShape_moveGen:
  "map length g = map length start \<Longrightarrow> sameShape start (moveGen g)"
  unfolding sameShape_def using moveGen_shape by fastforce

lemma sameShape_append [simp]:
  "sameShape start (xs @ ys) \<longleftrightarrow> sameShape start xs \<and> sameShape start ys"
  by (auto simp: sameShape_def)

lemma sameShape_subset: "set xs \<subseteq> set ys \<Longrightarrow> sameShape start ys \<Longrightarrow> sameShape start xs"
  unfolding sameShape_def by blast

lemma sameShape_butlast: "sameShape start xs \<Longrightarrow> sameShape start (butlast xs)"
  by (rule sameShape_subset [of "butlast xs" xs]) (auto dest: in_set_butlastD)

lemma sameShape_tl: "sameShape start xs \<Longrightarrow> sameShape start (tl xs)"
  by (rule sameShape_subset [of "tl xs" xs]) (cases xs; auto)+

lemma bfsPush_queue:
  assumes "foldl (bfsPush key) (q, parent, seen) nexts = (q', parent', seen')"
    and "\<forall>h\<in>set nexts. serializeGrid h \<in> K" and "finite K"
  shows "set q' \<subseteq> set q \<union> set nexts \<and>
    card (K - seen') + length q' = card (K - seen) + length q"
  using assms(1,2)
proof (induction nexts arbitrary: q parent seen)
  case Nil
  then show ?case by simp
next
  case (Cons h nexts)
  show ?case
  proof (cases "serializeGrid h \<in> seen")
    case True
    then have "bfsPush key (q, parent, seen) h = (q, parent, seen)"
      by (simp add: bfsPush_def)
    with Cons.prems have "foldl (bfsPush key) (q, parent, seen) nexts = (q', parent', seen')"
      by simp
    from Cons.IH [OF this] Cons.prems(2) show ?thesis by auto
  next
    case False
    then have st: "bfsPush key (q, parent, seen) h =
        (q @ [h], parent(serializeGrid h \<mapsto> Some key), insert (serializeGrid h) seen)"
      by (simp add: bfsPush_def Let_def)
    with Cons.prems have "foldl (bfsPush key)
        (q @ [h], parent(serializeGrid h \<mapsto> Some key), insert (serializeGrid h) seen) nexts
        = (q', parent', seen')"
      by simp
    from Cons.IH [OF this] Cons.prems(2)
    have a: "set q' \<subseteq> set (q @ [h]) \<union> set nexts"
      and b: "card (K - seen') + length q' =
        card (K - insert (serializeGrid h) seen) + length (q @ [h])"
      by auto
    have "serializeGrid h \<in> K - seen" using Cons.prems(2) False by simp
    moreover have "finite (K - seen)" using assms(3) by simp
    ultimately have "card (K - seen - {serializeGrid h}) < card (K - seen)"
      by (rule card_Diff1_less [rotated])
    moreover have "K - insert (serializeGrid h) seen = K - seen - {serializeGrid h}"
      by auto
    moreover have "card (K - seen - {serializeGrid h}) = card (K - seen) - 1"
      using \<open>serializeGrid h \<in> K - seen\<close> by (simp add: card_Diff_singleton)
    ultimately have "card (K - insert (serializeGrid h) seen) + 1 = card (K - seen)"
      by simp
    with a b show ?thesis by auto
  qed
qed

lemma pushPQ_grids: "set (map fst (pushPQ dockPos pq g)) \<subseteq> insert g (set (map fst pq))"
  by (auto simp: pushPQ_def split: option.splits)

lemma bestPush_queue:
  "foldl (bestPush dockPos key) (parent, pq) nexts = (parent', pq') \<Longrightarrow>
   set (map fst pq') \<subseteq> set (map fst pq) \<union> set nexts"
proof (induction nexts arbitrary: parent pq)
  case Nil
  then show ?case by simp
next
  case (Cons h nexts)
  let ?p1 = "if parent (serializeGrid h) = None then parent(serializeGrid h \<mapsto> Some key) else parent"
  have step: "bestPush dockPos key (parent, pq) h = (?p1, pushPQ dockPos pq h)"
    by (simp add: bestPush_def Let_def)
  from Cons.prems have "foldl (bestPush dockPos key) (?p1, pushPQ dockPos pq h) nexts = (parent', pq')"
    by (simp only: foldl_Cons step)
  from Cons.IH [OF this] pushPQ_grids [of dockPos pq h] show ?case by auto
qed

lemma dfsLoop_rule [consumes 2, case_names empty seen goal ceiling expand]:
  assumes shape: "sameShape start stack"
    and inv: "I stack parent seen nodes visited"
    and empty: "\<And>parent seen nodes visited.
      I [] parent seen nodes visited \<Longrightarrow> Q (Some (failed FrontierEmpty nodes visited))"
    and seen: "\<And>stack parent seen nodes visited.
      I stack parent seen nodes visited \<Longrightarrow> stack \<noteq> [] \<Longrightarrow>
      serializeGrid (last stack) \<in> seen \<Longrightarrow> sameShape start stack \<Longrightarrow>
      I (butlast stack) parent seen nodes visited"
    and goal: "\<And>stack parent seen nodes visited.
      I stack parent seen nodes visited \<Longrightarrow> stack \<noteq> [] \<Longrightarrow>
      serializeGrid (last stack) \<notin> seen \<Longrightarrow>
      isGoal (last stack) \<or> isAtDock (last stack) dockPos \<Longrightarrow> sameShape start stack \<Longrightarrow>
      Q (map_option (found (nodes + 1) (pushProbe visited (last stack)))
           (dfsPath parent (length start) (cols start) (serializeGrid (last stack)) []))"
    and ceiling: "\<And>stack parent seen nodes visited.
      I stack parent seen nodes visited \<Longrightarrow> stack \<noteq> [] \<Longrightarrow>
      serializeGrid (last stack) \<notin> seen \<Longrightarrow>
      \<not> (isGoal (last stack) \<or> isAtDock (last stack) dockPos) \<Longrightarrow>
      exceeds (nodes + 1) maxNodes \<Longrightarrow> sameShape start stack \<Longrightarrow>
      Q (Some (failed CeilingHit (nodes + 1) (pushProbe visited (last stack))))"
    and expand: "\<And>stack parent seen nodes visited parent' stack'.
      I stack parent seen nodes visited \<Longrightarrow> stack \<noteq> [] \<Longrightarrow>
      serializeGrid (last stack) \<notin> seen \<Longrightarrow>
      \<not> (isGoal (last stack) \<or> isAtDock (last stack) dockPos) \<Longrightarrow>
      \<not> exceeds (nodes + 1) maxNodes \<Longrightarrow>
      foldl (dfsPush (serializeGrid (last stack))) (parent, butlast stack) (moveGen (last stack))
        = (parent', stack') \<Longrightarrow> sameShape start stack \<Longrightarrow>
      I stack' parent' (insert (serializeGrid (last stack)) seen) (nodes + 1)
        (pushProbe visited (last stack))"
  shows "Q (dfsLoop start dockPos maxNodes stack parent seen nodes visited)"
proof -
  define R where "R = measures [\<lambda>x :: grid list \<times> string set. card (keysOf start - snd x),
                                 \<lambda>x. length (fst x)]"
  have wfR: "wf R" by (simp add: R_def)
  define P where "P x \<longleftrightarrow> (\<forall>parent nodes visited.
      sameShape start (fst x) \<longrightarrow> I (fst x) parent (snd x) nodes visited \<longrightarrow>
      Q (dfsLoop start dockPos maxNodes (fst x) parent (snd x) nodes visited))" for x
  have "P x" for x
    using wfR
  proof (induction x rule: wf_induct_rule)
    case (less x)
    obtain stack seen where x: "x = (stack, seen)" by (cases x)
    show ?case
      unfolding P_def x fst_conv snd_conv
    proof (intro allI impI)
      fix parent nodes visited
      assume sh: "sameShape start stack" and I: "I stack parent seen nodes visited"
      have IH: "Q (dfsLoop start dockPos maxNodes stack' parent' seen' nodes' visited')"
        if "((stack', seen'), (stack, seen)) \<in> R" "sameShape start stack'"
          "I stack' parent' seen' nodes' visited'" for stack' parent' seen' nodes' visited'
        using less.IH [of "(stack', seen')"] that unfolding P_def x by simp
      show "Q (dfsLoop start dockPos maxNodes stack parent seen nodes visited)"
      proof (cases "stack = []")
        case True
        with I empty show ?thesis by (subst dfsLoop.simps) simp
      next
        case ne: False
        let ?grid = "last stack"
        let ?key = "serializeGrid ?grid"
        from ne sh have gs: "map length ?grid = map length start"
          by (simp add: sameShape_def)
        show ?thesis
        proof (cases "?key \<in> seen")
          case True
          have "Q (dfsLoop start dockPos maxNodes (butlast stack) parent seen nodes visited)"
          proof (rule IH)
            show "((butlast stack, seen), (stack, seen)) \<in> R"
              using ne by (simp add: R_def)
            show "sameShape start (butlast stack)" using sh by (rule sameShape_butlast)
            show "I (butlast stack) parent seen nodes visited" by (rule seen [OF I ne True sh])
          qed
          then show ?thesis
            using ne True by (subst dfsLoop.simps) (simp add: Let_def)
        next
          case ns: False
          show ?thesis
          proof (cases "isGoal ?grid \<or> isAtDock ?grid dockPos")
            case True
            from goal [OF I ne ns True sh] show ?thesis
              using ne ns True by (subst dfsLoop.simps) (simp add: Let_def)
          next
            case ng: False
            show ?thesis
            proof (cases "exceeds (nodes + 1) maxNodes")
              case True
              from ceiling [OF I ne ns ng True sh] show ?thesis
                using ne ns ng True by (subst dfsLoop.simps) (simp add: Let_def)
            next
              case nc: False
              obtain parent' stack' where
                f: "foldl (dfsPush ?key) (parent, butlast stack) (moveGen ?grid) = (parent', stack')"
                by (cases "foldl (dfsPush ?key) (parent, butlast stack) (moveGen ?grid)")
              have st: "stack' = butlast stack @ moveGen ?grid"
                using f by (rule dfsPush_stack)
              have "Q (dfsLoop start dockPos maxNodes stack' parent' (insert ?key seen) (nodes + 1)
                     (pushProbe visited ?grid))"
              proof (rule IH)
                show "((stack', insert ?key seen), (stack, seen)) \<in> R"
                  using keysOf_fresh [OF gs ns] by (simp add: R_def)
                show "sameShape start stack'"
                  unfolding st using sh gs by (simp add: sameShape_butlast sameShape_moveGen)
                show "I stack' parent' (insert ?key seen) (nodes + 1) (pushProbe visited ?grid)"
                  by (rule expand [OF I ne ns ng nc f sh])
              qed
              then show ?thesis
                using ne ns ng nc f by (subst dfsLoop.simps) (simp add: Let_def)
            qed
          qed
        qed
      qed
    qed
  qed
  from this [of "(stack, seen)"] shape inv show ?thesis
    unfolding P_def by simp
qed


lemma bfsLoop_rule [consumes 2, case_names empty goal ceiling expand]:
  assumes shape: "sameShape start q"
    and inv: "I q parent seen nodes visited"
    and empty: "\<And>parent seen nodes visited.
      I [] parent seen nodes visited \<Longrightarrow> Q (Some (failed FrontierEmpty nodes visited))"
    and goal: "\<And>q parent seen nodes visited.
      I q parent seen nodes visited \<Longrightarrow> q \<noteq> [] \<Longrightarrow>
      isGoal (hd q) \<or> isAtDock (hd q) dockPos \<Longrightarrow> sameShape start q \<Longrightarrow>
      Q (map_option (found (nodes + 1) (pushProbe visited (hd q)))
           (bfsPath parent (length start) (cols start) (Some (serializeGrid (hd q))) []))"
    and ceiling: "\<And>q parent seen nodes visited.
      I q parent seen nodes visited \<Longrightarrow> q \<noteq> [] \<Longrightarrow>
      \<not> (isGoal (hd q) \<or> isAtDock (hd q) dockPos) \<Longrightarrow> exceeds (nodes + 1) maxNodes \<Longrightarrow>
      sameShape start q \<Longrightarrow>
      Q (Some (failed CeilingHit (nodes + 1) (pushProbe visited (hd q))))"
    and expand: "\<And>q parent seen nodes visited q' parent' seen'.
      I q parent seen nodes visited \<Longrightarrow> q \<noteq> [] \<Longrightarrow>
      \<not> (isGoal (hd q) \<or> isAtDock (hd q) dockPos) \<Longrightarrow> \<not> exceeds (nodes + 1) maxNodes \<Longrightarrow>
      foldl (bfsPush (serializeGrid (hd q))) (tl q, parent, seen) (moveGen (hd q))
        = (q', parent', seen') \<Longrightarrow> sameShape start q \<Longrightarrow>
      I q' parent' seen' (nodes + 1) (pushProbe visited (hd q))"
  shows "Q (bfsLoop start dockPos maxNodes q parent seen nodes visited)"
proof -
  define R where "R = measure (\<lambda>x :: grid list \<times> string set.
      card (keysOf start - snd x) + length (fst x))"
  have wfR: "wf R" by (simp add: R_def)
  define P where "P x \<longleftrightarrow> (\<forall>parent nodes visited.
      sameShape start (fst x) \<longrightarrow> I (fst x) parent (snd x) nodes visited \<longrightarrow>
      Q (bfsLoop start dockPos maxNodes (fst x) parent (snd x) nodes visited))" for x
  have "P x" for x
    using wfR
  proof (induction x rule: wf_induct_rule)
    case (less x)
    obtain q seen where x: "x = (q, seen)" by (cases x)
    show ?case
      unfolding P_def x fst_conv snd_conv
    proof (intro allI impI)
      fix parent nodes visited
      assume sh: "sameShape start q" and I: "I q parent seen nodes visited"
      have IH: "Q (bfsLoop start dockPos maxNodes q' parent' seen' nodes' visited')"
        if "((q', seen'), (q, seen)) \<in> R" "sameShape start q'"
          "I q' parent' seen' nodes' visited'" for q' parent' seen' nodes' visited'
        using less.IH [of "(q', seen')"] that unfolding P_def x by simp
      show "Q (bfsLoop start dockPos maxNodes q parent seen nodes visited)"
      proof (cases "q = []")
        case True
        with I empty show ?thesis by (subst bfsLoop.simps) simp
      next
        case ne: False
        let ?g = "hd q"
        let ?key = "serializeGrid ?g"
        from ne sh have gs: "map length ?g = map length start"
          by (simp add: sameShape_def)
        show ?thesis
        proof (cases "isGoal ?g \<or> isAtDock ?g dockPos")
          case True
          from goal [OF I ne True sh] show ?thesis
            using ne True by (subst bfsLoop.simps) (simp add: Let_def)
        next
          case ng: False
          show ?thesis
          proof (cases "exceeds (nodes + 1) maxNodes")
            case True
            from ceiling [OF I ne ng True sh] show ?thesis
              using ne ng True by (subst bfsLoop.simps) (simp add: Let_def)
          next
            case nc: False
            obtain q' parent' seen' where
              f: "foldl (bfsPush ?key) (tl q, parent, seen) (moveGen ?g) = (q', parent', seen')"
              by (cases "foldl (bfsPush ?key) (tl q, parent, seen) (moveGen ?g)") auto
            have next_keys: "\<forall>h\<in>set (moveGen ?g). serializeGrid h \<in> keysOf start"
              using sameShape_moveGen [OF gs] by (simp add: sameShape_def keysOf_member)
            note qm = bfsPush_queue [OF f next_keys finite_keysOf]
            have "Q (bfsLoop start dockPos maxNodes q' parent' seen' (nodes + 1)
                   (pushProbe visited ?g))"
            proof (rule IH)
              have "length (tl q) < length q" using ne by simp
              with qm show "((q', seen'), (q, seen)) \<in> R"
                by (simp add: R_def)
              have "sameShape start (tl q @ moveGen ?g)"
                using sh gs by (simp add: sameShape_tl sameShape_moveGen)
              with qm show "sameShape start q'"
                by (intro sameShape_subset [of q' "tl q @ moveGen ?g"]) simp_all
              show "I q' parent' seen' (nodes + 1) (pushProbe visited ?g)"
                by (rule expand [OF I ne ng nc f sh])
            qed
            then show ?thesis
              using ne ng nc f by (subst bfsLoop.simps) (simp add: Let_def)
          qed
        qed
      qed
    qed
  qed
  from this [of "(q, seen)"] shape inv show ?thesis
    unfolding P_def by simp
qed

lemma bestLoop_rule [consumes 2, case_names empty seen goal ceiling expand]:
  assumes shape: "sameShape start (map fst pq)"
    and inv: "I pq parent seen nodes visited"
    and empty: "\<And>parent seen nodes visited.
      I [] parent seen nodes visited \<Longrightarrow> Q (Some (failed FrontierEmpty nodes visited))"
    and seen: "\<And>pq parent seen nodes visited.
      I pq parent seen nodes visited \<Longrightarrow> pq \<noteq> [] \<Longrightarrow>
      serializeGrid (fst (hd pq)) \<in> seen \<Longrightarrow> sameShape start (map fst pq) \<Longrightarrow>
      I (tl pq) parent seen nodes visited"
    and goal: "\<And>pq parent seen nodes visited.
      I pq parent seen nodes visited \<Longrightarrow> pq \<noteq> [] \<Longrightarrow>
      serializeGrid (fst (hd pq)) \<notin> seen \<Longrightarrow>
      isGoal (fst (hd pq)) \<or> isAtDock (fst (hd pq)) (Some dockPos) \<Longrightarrow>
      sameShape start (map fst pq) \<Longrightarrow>
      Q (map_option (found (nodes + 1) (pushProbe visited (fst (hd pq))))
           (bfsPath parent (length start) (cols start) (Some (serializeGrid (fst (hd pq)))) []))"
    and ceiling: "\<And>pq parent seen nodes visited.
      I pq parent seen nodes visited \<Longrightarrow> pq \<noteq> [] \<Longrightarrow>
      serializeGrid (fst (hd pq)) \<notin> seen \<Longrightarrow>
      \<not> (isGoal (fst (hd pq)) \<or> isAtDock (fst (hd pq)) (Some dockPos)) \<Longrightarrow>
      exceeds (nodes + 1) maxNodes \<Longrightarrow> sameShape start (map fst pq) \<Longrightarrow>
      Q (Some (failed CeilingHit (nodes + 1) (pushProbe visited (fst (hd pq)))))"
    and expand: "\<And>pq parent seen nodes visited parent' pq'.
      I pq parent seen nodes visited \<Longrightarrow> pq \<noteq> [] \<Longrightarrow>
      serializeGrid (fst (hd pq)) \<notin> seen \<Longrightarrow>
      \<not> (isGoal (fst (hd pq)) \<or> isAtDock (fst (hd pq)) (Some dockPos)) \<Longrightarrow>
      \<not> exceeds (nodes + 1) maxNodes \<Longrightarrow>
      foldl (bestPush dockPos (serializeGrid (fst (hd pq)))) (parent, tl pq) (moveGen (fst (hd pq)))
        = (parent', pq') \<Longrightarrow> sameShape start (map fst pq) \<Longrightarrow>
      I pq' parent' (insert (serializeGrid (fst (hd pq))) seen) (nodes + 1)
        (pushProbe visited (fst (hd pq)))"
  shows "Q (bestLoop start dockPos maxNodes pq parent seen nodes visited)"
proof -
  define R where "R = measures [\<lambda>x :: (grid \<times> int) list \<times> string set. card (keysOf start - snd x),
                                 \<lambda>x. length (fst x)]"
  have wfR: "wf R" by (simp add: R_def)
  define P where "P x \<longleftrightarrow> (\<forall>parent nodes visited.
      sameShape start (map fst (fst x)) \<longrightarrow> I (fst x) parent (snd x) nodes visited \<longrightarrow>
      Q (bestLoop start dockPos maxNodes (fst x) parent (snd x) nodes visited))" for x
  have "P x" for x
    using wfR
  proof (induction x rule: wf_induct_rule)
    case (less x)
    obtain pq seen where x: "x = (pq, seen)" by (cases x)
    show ?case
      unfolding P_def x fst_conv snd_conv
    proof (intro allI impI)
      fix parent nodes visited
      assume sh: "sameShape start (map fst pq)" and I: "I pq parent seen nodes visited"
      have IH: "Q (bestLoop start dockPos maxNodes pq' parent' seen' nodes' visited')"
        if "((pq', seen'), (pq, seen)) \<in> R" "sameShape start (map fst pq')"
          "I pq' parent' seen' nodes' visited'" for pq' parent' seen' nodes' visited'
        using less.IH [of "(pq', seen')"] that unfolding P_def x by simp
      show "Q (bestLoop start dockPos maxNodes pq parent seen nodes visited)"
      proof (cases "pq = []")
        case True
        with I empty show ?thesis by (subst bestLoop.simps) simp
      next
        case ne: False
        let ?grid = "fst (hd pq)"
        let ?key = "serializeGrid ?grid"
        from ne have "?grid \<in> set (map fst pq)" by simp
        with sh have gs: "map length ?grid = map length start"
          unfolding sameShape_def by blast
        have sht: "sameShape start (map fst (tl pq))"
          using sameShape_tl [OF sh] by (simp add: map_tl)
        show ?thesis
        proof (cases "?key \<in> seen")
          case True
          have "Q (bestLoop start dockPos maxNodes (tl pq) parent seen nodes visited)"
          proof (rule IH)
            show "((tl pq, seen), (pq, seen)) \<in> R"
              using ne by (simp add: R_def)
            show "sameShape start (map fst (tl pq))" by (rule sht)
            show "I (tl pq) parent seen nodes visited" by (rule seen [OF I ne True sh])
          qed
          then show ?thesis
            using ne True by (subst bestLoop.simps) (simp add: Let_def)
        next
          case ns: False
          show ?thesis
          proof (cases "isGoal ?grid \<or> isAtDock ?grid (Some dockPos)")
            case True
            from goal [OF I ne ns True sh] show ?thesis
              using ne ns True by (subst bestLoop.simps) (simp add: Let_def)
          next
            case ng: False
            show ?thesis
            proof (cases "exceeds (nodes + 1) maxNodes")
              case True
              from ceiling [OF I ne ns ng True sh] show ?thesis
                using ne ns ng True by (subst bestLoop.simps) (simp add: Let_def)
            next
              case nc: False
              obtain parent' pq' where
                f: "foldl (bestPush dockPos ?key) (parent, tl pq) (moveGen ?grid) = (parent', pq')"
                by (cases "foldl (bestPush dockPos ?key) (parent, tl pq) (moveGen ?grid)")
              note qm = bestPush_queue [OF f]
              have "Q (bestLoop start dockPos maxNodes pq' parent' (insert ?key seen) (nodes + 1)
                     (pushProbe visited ?grid))"
              proof (rule IH)
                show "((pq', insert ?key seen), (pq, seen)) \<in> R"
                  using keysOf_fresh [OF gs ns] by (simp add: R_def)
                have "sameShape start (map fst (tl pq) @ moveGen ?grid)"
                  using sht gs by (simp add: sameShape_moveGen)
                with qm show "sameShape start (map fst pq')"
                  by (intro sameShape_subset [of "map fst pq'" "map fst (tl pq) @ moveGen ?grid"])
                    simp_all
                show "I pq' parent' (insert ?key seen) (nodes + 1) (pushProbe visited ?grid)"
                  by (rule expand [OF I ne ns ng nc f sh])
              qed
              then show ?thesis
                using ne ns ng nc f by (subst bestLoop.simps) (simp add: Let_def)
            qed
          qed
        qed
      qed
    qed
  qed
  from this [of "(pq, seen)"] shape inv show ?thesis
    unfolding P_def by simp
qed

section \<open>Start grids without Probe or Dock\<close>

text \<open>
  Claim C5, as amended. A start grid in which \<open>findCell\<close> finds no Probe or no Dock makes
  each solver return at once: no path, no state expanded, nothing visited. The solvers
  test only that a Probe and a Dock exist, not that they are unique.
\<close>

theorem malformed_start:
  assumes "findCell start PROBE = None \<or> findCell start DOCK = None"
  shows "dfsSolve start maxNodes = Some \<lparr>path = None, nodesExpanded = 0, visitedProbe = []\<rparr> \<and>
    bfsSolve start maxNodes = Some \<lparr>path = None, nodesExpanded = 0, visitedProbe = []\<rparr> \<and>
    bestFirstSolve start maxNodes = Some \<lparr>path = None, nodesExpanded = 0, visitedProbe = []\<rparr>"
proof (intro conjI)
  show "dfsSolve start maxNodes = Some \<lparr>path = None, nodesExpanded = 0, visitedProbe = []\<rparr>"
    using assms by (auto simp: dfsSolve_def dfsSearch_def failed_def)
  show "bfsSolve start maxNodes = Some \<lparr>path = None, nodesExpanded = 0, visitedProbe = []\<rparr>"
    using assms by (auto simp: bfsSolve_def bfsSearch_def failed_def)
  show "bestFirstSolve start maxNodes = Some \<lparr>path = None, nodesExpanded = 0, visitedProbe = []\<rparr>"
  proof (cases "findCell start DOCK")
    case None
    then show ?thesis by (simp add: bestFirstSolve_def bestFirstSearch_def failed_def)
  next
    case (Some d)
    with assms have "findCell start PROBE = None" by simp
    then have "pushPQ d [] start = []" by (simp add: pushPQ_def)
    then show ?thesis
      using Some by (simp add: bestFirstSolve_def bestFirstSearch_def failed_def bestLoop.simps)
  qed
qed

theorem malformed_start_witness:
  "(findCell [[EMPTY, DOCK]] PROBE = None \<or> findCell [[EMPTY, DOCK]] DOCK = None) \<and>
   dfsSolve [[EMPTY, DOCK]] (Num 7) = Some \<lparr>path = None, nodesExpanded = 0, visitedProbe = []\<rparr> \<and>
   bfsSolve [[EMPTY, DOCK]] (Num 7) = Some \<lparr>path = None, nodesExpanded = 0, visitedProbe = []\<rparr> \<and>
   bestFirstSolve [[EMPTY, DOCK]] (Num 7) = Some \<lparr>path = None, nodesExpanded = 0, visitedProbe = []\<rparr>"
proof -
  have h: "findCell [[EMPTY, DOCK]] PROBE = None \<or> findCell [[EMPTY, DOCK]] DOCK = None"
    by code_simp
  from malformed_start [OF h, of "Num 7"] h show ?thesis by simp
qed

theorem malformed_start_counterexample:
  "countCells [[PROBE, DOCK, DOCK]] DOCK \<noteq> 1 \<and>
   dfsSolve [[PROBE, DOCK, DOCK]] (Num 5) =
     Some \<lparr>path = Some [[[PROBE, DOCK, DOCK]], [[EMPTY, PROBE, DOCK]]],
           nodesExpanded = 2, visitedProbe = [(0, 0), (0, 1)]\<rparr>"
  by code_simp

section \<open>The count at the ceiling\<close>

lemma belowCeiling_0 [simp]: "belowCeiling maxNodes 0"
  by (simp add: belowCeiling_def)

lemma belowCeiling_Suc:
  "belowCeiling maxNodes nodes \<Longrightarrow> \<not> exceeds (nodes + 1) maxNodes \<Longrightarrow>
   belowCeiling maxNodes (nodes + 1)"
  unfolding belowCeiling_def by (auto simp: le_Suc_eq)

lemma belowCeiling_first:
  "belowCeiling maxNodes nodes \<Longrightarrow> exceeds (nodes + 1) maxNodes \<Longrightarrow>
   firstAbove maxNodes (nodes + 1)"
  unfolding belowCeiling_def firstAbove_def by (auto simp: list_all_iff)

lemma firstAbove_nat: "firstAbove (Num (of_nat n)) k \<longleftrightarrow> k = n + 1"
proof
  assume a: "firstAbove (Num (of_nat n)) k"
  then have k: "0 < k" "n < k" by (simp_all add: firstAbove_def)
  show "k = n + 1"
  proof (rule ccontr)
    assume "k \<noteq> n + 1"
    with k have "n + 1 \<in> set [1..<k]" by auto
    with a have "\<not> exceeds (n + 1) (Num (of_nat n))"
      unfolding firstAbove_def list_all_iff by blast
    then show False by simp
  qed
next
  assume "k = n + 1"
  then show "firstAbove (Num (of_nat n)) k"
    by (auto simp: firstAbove_def list_all_iff)
qed

lemma firstAbove_negative: "x < 0 \<Longrightarrow> firstAbove (Num x) k \<longleftrightarrow> k = 1"
proof
  assume x: "x < 0" and a: "firstAbove (Num x) k"
  then have k: "0 < k" by (simp add: firstAbove_def)
  show "k = 1"
  proof (rule ccontr)
    assume "k \<noteq> 1"
    with k have "1 \<in> set [1..<k]" by auto
    with a have "\<not> exceeds 1 (Num x)"
      unfolding firstAbove_def list_all_iff by blast
    with x show False by simp
  qed
next
  assume "x < 0" and "k = 1"
  then show "firstAbove (Num x) k"
    by (simp add: firstAbove_def)
qed

lemma firstAbove_never:
  "\<not> firstAbove PlusInfinity k" "\<not> firstAbove NaN k"
  by (simp_all add: firstAbove_def)

lemma dfsLoop_ceiling:
  assumes "sameShape start stack" and "belowCeiling maxNodes nodes"
  shows "\<forall>r. dfsLoop start dockPos maxNodes stack parent seen nodes visited = Some (CeilingHit, r)
    \<longrightarrow> firstAbove maxNodes (nodesExpanded r)"
  using assms
proof (induction rule: dfsLoop_rule
    [where I = "\<lambda>stack parent seen nodes visited. belowCeiling maxNodes nodes"])
  case (goal stack parent seen nodes visited)
  then show ?case by (auto simp: found_def)
next
  case (ceiling stack parent seen nodes visited)
  then show ?case using belowCeiling_first [of maxNodes nodes] by (simp add: failed_def)
next
  case (expand stack parent seen nodes visited parent' stack')
  then show ?case using belowCeiling_Suc [of maxNodes nodes] by simp
qed (simp_all add: failed_def)

lemma bfsLoop_ceiling:
  assumes "sameShape start q" and "belowCeiling maxNodes nodes"
  shows "\<forall>r. bfsLoop start dockPos maxNodes q parent seen nodes visited = Some (CeilingHit, r)
    \<longrightarrow> firstAbove maxNodes (nodesExpanded r)"
  using assms
proof (induction rule: bfsLoop_rule
    [where I = "\<lambda>q parent seen nodes visited. belowCeiling maxNodes nodes"])
  case (goal q parent seen nodes visited)
  then show ?case by (auto simp: found_def)
next
  case (ceiling q parent seen nodes visited)
  then show ?case using belowCeiling_first [of maxNodes nodes] by (simp add: failed_def)
next
  case (expand q parent seen nodes visited q' parent' seen')
  then show ?case using belowCeiling_Suc [of maxNodes nodes] by simp
qed (simp_all add: failed_def)

lemma bestLoop_ceiling:
  assumes "sameShape start (map fst pq)" and "belowCeiling maxNodes nodes"
  shows "\<forall>r. bestLoop start dockPos maxNodes pq parent seen nodes visited = Some (CeilingHit, r)
    \<longrightarrow> firstAbove maxNodes (nodesExpanded r)"
  using assms
proof (induction rule: bestLoop_rule
    [where I = "\<lambda>pq parent seen nodes visited. belowCeiling maxNodes nodes"])
  case (goal pq parent seen nodes visited)
  then show ?case by (auto simp: found_def)
next
  case (ceiling pq parent seen nodes visited)
  then show ?case using belowCeiling_first [of maxNodes nodes] by (simp add: failed_def)
next
  case (expand pq parent seen nodes visited parent' pq')
  then show ?case using belowCeiling_Suc [of maxNodes nodes] by simp
qed (simp_all add: failed_def)

section \<open>An empty frontier: no solution walk exists\<close>

lemma set_butlast_last: "xs \<noteq> [] \<Longrightarrow> set xs = insert (last xs) (set (butlast xs))"
  by (induction xs) auto

lemma expandedClosed_drop:
  assumes ec: "expandedClosed start dockPos seen fr" and g: "serializeGrid g \<in> seen"
    and fr: "set fr \<subseteq> insert g (set fr')"
  shows "expandedClosed start dockPos seen fr'"
  unfolding expandedClosed_def
proof (intro conjI allI impI)
  show "start \<in> set fr' \<or> serializeGrid start \<in> seen"
    using ec fr g unfolding expandedClosed_def by auto
next
  fix x
  assume x: "map length x = map length start \<and> serializeGrid x \<in> seen"
  with ec show "\<not> goalTest dockPos x" unfolding expandedClosed_def by blast
  from x ec have "\<forall>h\<in>set (moveGen x). serializeGrid h \<in> seen \<or> h \<in> set fr"
    unfolding expandedClosed_def by blast
  with fr g show "\<forall>h\<in>set (moveGen x). serializeGrid h \<in> seen \<or> h \<in> set fr'"
    by auto
qed

lemma expandedClosed_expand:
  assumes ec: "expandedClosed start dockPos seen fr"
    and gs: "map length g = map length start" and ng: "\<not> goalTest dockPos g"
    and fr: "set fr \<subseteq> insert g (set fr')" and nx: "set (moveGen g) \<subseteq> set fr'"
  shows "expandedClosed start dockPos (insert (serializeGrid g) seen) fr'"
  unfolding expandedClosed_def
proof (intro conjI allI impI)
  show "start \<in> set fr' \<or> serializeGrid start \<in> insert (serializeGrid g) seen"
    using ec fr unfolding expandedClosed_def by auto
next
  fix x
  assume x: "map length x = map length start \<and> serializeGrid x \<in> insert (serializeGrid g) seen"
  show "\<not> goalTest dockPos x"
  proof (cases "serializeGrid x = serializeGrid g")
    case True
    with x gs have "x = g" by (intro serializeGrid_inj) simp_all
    with ng show ?thesis by simp
  next
    case False
    with x ec show ?thesis unfolding expandedClosed_def by blast
  qed
  show "\<forall>h\<in>set (moveGen x). serializeGrid h \<in> insert (serializeGrid g) seen \<or> h \<in> set fr'"
  proof (cases "serializeGrid x = serializeGrid g")
    case True
    with x gs have "x = g" by (intro serializeGrid_inj) simp_all
    with nx show ?thesis by auto
  next
    case False
    with x have "map length x = map length start \<and> serializeGrid x \<in> seen" by simp
    with ec have "\<forall>h\<in>set (moveGen x). serializeGrid h \<in> seen \<or> h \<in> set fr"
      unfolding expandedClosed_def by blast
    with fr show ?thesis by auto
  qed
qed

lemma expandedClosed_exhausted:
  assumes ec: "expandedClosed start dockPos seen []"
    and w: "isWalk ws" "hd ws = start"
  shows "\<not> goalTest dockPos (last ws)"
proof -
  have ne: "ws \<noteq> []" using w(1) by auto
  have sh: "map length (ws ! i) = map length start" if "i < length ws" for i
    using isWalk_shape [OF w(1), of "ws ! i"] that w(2) by simp
  have seen: "i < length ws \<Longrightarrow> serializeGrid (ws ! i) \<in> seen" for i
  proof (induction i)
    case 0
    then show ?case using ec w(2) ne by (simp add: expandedClosed_def hd_conv_nth)
  next
    case (Suc i)
    then have "serializeGrid (ws ! i) \<in> seen" "map length (ws ! i) = map length start"
      using sh by simp_all
    moreover have "ws ! Suc i \<in> set (moveGen (ws ! i))"
      using w(1) Suc.prems by (rule isWalk_step)
    ultimately show ?case
      using ec unfolding expandedClosed_def by fastforce
  qed
  have l: "last ws = ws ! (length ws - 1)"
    using ne by (rule last_conv_nth)
  have "length ws - 1 < length ws" using ne by simp
  from seen [OF this] sh [OF this] ec show ?thesis
    unfolding l expandedClosed_def by blast
qed

lemma moveGen_has_probe:
  assumes "h \<in> set (moveGen g)"
  shows "findCell h PROBE \<noteq> None"
proof -
  from assms obtain pr pc d where p: "findCell g PROBE = Some (pr, pc)"
      and m: "moveDir g (pr, pc) d = Some h"
    unfolding moveGen_iff by blast
  have inb: "inBounds g (pr + dr d) (pc + dc d)"
    using m by (auto simp: moveDir_def Let_def split: if_splits)
  have sh: "map length h = map length g" using p m by (rule moveDir_shape)
  then have "length h = length g" by (rule map_eq_imp_length_eq)
  moreover have "cols h = cols g" using sh by (simp add: cols_shape)
  ultimately have "inBounds h (pr + dr d) (pc + dc d)"
    using inb by (simp add: inBounds_def)
  then have "(pr + dr d, pc + dc d) \<in> set (positions h)"
    by (simp add: positions_iff)
  moreover have "cellAt h (pr + dr d) (pc + dc d) = Some PROBE"
    using p m by (rule moveDir_cells)
  ultimately show ?thesis
    unfolding findCell_def find_None_iff by auto
qed

lemma pushPQ_grids_eq:
  "findCell g PROBE \<noteq> None \<Longrightarrow> set (map fst (pushPQ dockPos pq g)) = insert g (set (map fst pq))"
  by (auto simp: pushPQ_def split: option.splits)

lemma bestPush_queue_eq:
  "foldl (bestPush dockPos key) (parent, pq) nexts = (parent', pq') \<Longrightarrow>
   \<forall>h\<in>set nexts. findCell h PROBE \<noteq> None \<Longrightarrow>
   set (map fst pq') = set (map fst pq) \<union> set nexts"
proof (induction nexts arbitrary: parent pq)
  case Nil
  then show ?case by simp
next
  case (Cons h nexts)
  let ?p1 = "if parent (serializeGrid h) = None then parent(serializeGrid h \<mapsto> Some key) else parent"
  have step: "bestPush dockPos key (parent, pq) h = (?p1, pushPQ dockPos pq h)"
    by (simp add: bestPush_def Let_def)
  from Cons.prems have "foldl (bestPush dockPos key) (?p1, pushPQ dockPos pq h) nexts = (parent', pq')"
    by (simp only: foldl_Cons step)
  from Cons.IH [OF this] Cons.prems(2) pushPQ_grids_eq [of h dockPos pq] show ?case by auto
qed

lemma dfsLoop_exhausted:
  assumes "sameShape start stack" and "expandedClosed start dockPos seen stack"
  shows "\<forall>r. dfsLoop start dockPos maxNodes stack parent seen nodes visited
      = Some (FrontierEmpty, r) \<longrightarrow>
    (\<forall>ws. isWalk ws \<and> hd ws = start \<longrightarrow> \<not> goalTest dockPos (last ws))"
  using assms
proof (induction rule: dfsLoop_rule
    [where I = "\<lambda>stack parent seen nodes visited. expandedClosed start dockPos seen stack"])
  case (empty parent seen nodes visited)
  then show ?case using expandedClosed_exhausted by blast
next
  case (seen stack parent seen nodes visited)
  from seen(2) have "set stack \<subseteq> insert (last stack) (set (butlast stack))"
    by (simp add: set_butlast_last [symmetric])
  with seen(1,3) show ?case by (rule expandedClosed_drop)
next
  case (goal stack parent seen nodes visited)
  then show ?case by (auto simp: found_def)
next
  case (ceiling stack parent seen nodes visited)
  then show ?case by (simp add: failed_def)
next
  case (expand stack parent seen nodes visited parent' stack')
  from expand(2) have sub: "set stack \<subseteq> insert (last stack) (set (butlast stack))"
    by (simp add: set_butlast_last [symmetric])
  have st: "stack' = butlast stack @ moveGen (last stack)"
    using expand(6) by (rule dfsPush_stack)
  from expand(2,7) have gs: "map length (last stack) = map length start"
    by (simp add: sameShape_def)
  show ?case
  proof (rule expandedClosed_expand [OF expand(1) gs])
    show "\<not> goalTest dockPos (last stack)" using expand(4) by (simp add: goalTest_def)
    show "set stack \<subseteq> insert (last stack) (set stack')" using sub st by auto
    show "set (moveGen (last stack)) \<subseteq> set stack'" using st by simp
  qed
qed

lemma bestLoop_exhausted:
  assumes "sameShape start (map fst pq)"
    and "expandedClosed start (Some dockPos) seen (map fst pq)"
  shows "\<forall>r. bestLoop start dockPos maxNodes pq parent seen nodes visited
      = Some (FrontierEmpty, r) \<longrightarrow>
    (\<forall>ws. isWalk ws \<and> hd ws = start \<longrightarrow> \<not> goalTest (Some dockPos) (last ws))"
  using assms
proof (induction rule: bestLoop_rule
    [where I = "\<lambda>pq parent seen nodes visited.
       expandedClosed start (Some dockPos) seen (map fst pq)"])
  case (empty parent seen nodes visited)
  then show ?case using expandedClosed_exhausted [of start "Some dockPos" seen] by simp
next
  case (seen pq parent seen nodes visited)
  from seen(2) have "set (map fst pq) \<subseteq> insert (fst (hd pq)) (set (map fst (tl pq)))"
    by (cases pq) auto
  with seen(1,3) show ?case by (rule expandedClosed_drop)
next
  case (goal pq parent seen nodes visited)
  then show ?case by (auto simp: found_def)
next
  case (ceiling pq parent seen nodes visited)
  then show ?case by (simp add: failed_def)
next
  case (expand pq parent seen nodes visited parent' pq')
  from expand(2) have sub: "set (map fst pq) \<subseteq> insert (fst (hd pq)) (set (map fst (tl pq)))"
    by (cases pq) auto
  have st: "set (map fst pq') = set (map fst (tl pq)) \<union> set (moveGen (fst (hd pq)))"
    using expand(6) by (rule bestPush_queue_eq) (simp add: moveGen_has_probe)
  from expand(2) have "fst (hd pq) \<in> set (map fst pq)" by simp
  with expand(7) have gs: "map length (fst (hd pq)) = map length start"
    unfolding sameShape_def by blast
  show ?case
  proof (rule expandedClosed_expand [OF expand(1) gs])
    show "\<not> goalTest (Some dockPos) (fst (hd pq))" using expand(4) by (simp add: goalTest_def)
    show "set (map fst pq) \<subseteq> insert (fst (hd pq)) (set (map fst pq'))" using sub st by auto
    show "set (moveGen (fst (hd pq))) \<subseteq> set (map fst pq')" using st by simp
  qed
qed

section \<open>The count and the visited positions\<close>

lemma bfsPush_subset:
  "foldl (bfsPush key) (q, parent, seen) nexts = (q', parent', seen') \<Longrightarrow>
   set q' \<subseteq> set q \<union> set nexts"
proof (induction nexts arbitrary: q parent seen)
  case Nil
  then show ?case by simp
next
  case (Cons h nexts)
  obtain q1 parent1 seen1 where
    push: "bfsPush key (q, parent, seen) h = (q1, parent1, seen1)"
    by (cases "bfsPush key (q, parent, seen) h") auto
  then have "set q1 \<subseteq> insert h (set q)"
    by (auto simp: bfsPush_def Let_def split: if_splits)
  moreover from Cons.prems have "foldl (bfsPush key) (q1, parent1, seen1) nexts = (q', parent', seen')"
    by (simp only: foldl_Cons push)
  from Cons.IH [OF this] have "set q' \<subseteq> set q1 \<union> set nexts" .
  ultimately show ?case by auto
qed

lemma withProbe_subset: "set xs \<subseteq> set ys \<Longrightarrow> withProbe ys \<Longrightarrow> withProbe xs"
  unfolding withProbe_def by blast

lemma withProbe_append [simp]: "withProbe (xs @ ys) \<longleftrightarrow> withProbe xs \<and> withProbe ys"
  by (auto simp: withProbe_def)

lemma withProbe_moveGen [simp]: "withProbe (moveGen g)"
  unfolding withProbe_def using moveGen_has_probe by blast

lemma withProbe_butlast: "withProbe xs \<Longrightarrow> withProbe (butlast xs)"
  by (rule withProbe_subset [of "butlast xs" xs]) (auto dest: in_set_butlastD)

lemma withProbe_tl: "withProbe xs \<Longrightarrow> withProbe (tl xs)"
  by (rule withProbe_subset [of "tl xs" xs]) (cases xs; auto)+

lemma length_pushProbe:
  "withProbe gs \<Longrightarrow> g \<in> set gs \<Longrightarrow> length (pushProbe visited g) = length visited + 1"
  by (auto simp: pushProbe_def withProbe_def)

lemma dfsLoop_count:
  assumes "sameShape start stack"
    and "nodes = length visited \<and> withProbe stack"
  shows "\<forall>e r. dfsLoop start dockPos maxNodes stack parent seen nodes visited = Some (e, r)
    \<longrightarrow> nodesExpanded r = length (visitedProbe r)"
  using assms
proof (induction rule: dfsLoop_rule
    [where I = "\<lambda>stack parent seen nodes visited. nodes = length visited \<and> withProbe stack"])
  case (empty parent seen nodes visited)
  then show ?case by (simp add: failed_def)
next
  case (seen stack parent seen nodes visited)
  then show ?case by (simp add: withProbe_butlast)
next
  case (goal stack parent seen nodes visited)
  then have "length (pushProbe visited (last stack)) = length visited + 1"
    by (intro length_pushProbe [of stack]) simp_all
  with goal(1) show ?case by (auto simp: found_def)
next
  case (ceiling stack parent seen nodes visited)
  then have "length (pushProbe visited (last stack)) = length visited + 1"
    by (intro length_pushProbe [of stack]) simp_all
  with ceiling(1) show ?case by (simp add: failed_def)
next
  case (expand stack parent seen nodes visited parent' stack')
  then have "length (pushProbe visited (last stack)) = length visited + 1"
    by (intro length_pushProbe [of stack]) simp_all
  moreover have "stack' = butlast stack @ moveGen (last stack)"
    using expand(6) by (rule dfsPush_stack)
  ultimately show ?case
    using expand(1) by (simp add: withProbe_butlast)
qed

lemma bfsLoop_count:
  assumes "sameShape start q"
    and "nodes = length visited \<and> withProbe q"
  shows "\<forall>e r. bfsLoop start dockPos maxNodes q parent seen nodes visited = Some (e, r)
    \<longrightarrow> nodesExpanded r = length (visitedProbe r)"
  using assms
proof (induction rule: bfsLoop_rule
    [where I = "\<lambda>q parent seen nodes visited. nodes = length visited \<and> withProbe q"])
  case (empty parent seen nodes visited)
  then show ?case by (simp add: failed_def)
next
  case (goal q parent seen nodes visited)
  then have "length (pushProbe visited (hd q)) = length visited + 1"
    by (intro length_pushProbe [of q]) simp_all
  with goal(1) show ?case by (auto simp: found_def)
next
  case (ceiling q parent seen nodes visited)
  then have "length (pushProbe visited (hd q)) = length visited + 1"
    by (intro length_pushProbe [of q]) simp_all
  with ceiling(1) show ?case by (simp add: failed_def)
next
  case (expand q parent seen nodes visited q' parent' seen')
  then have len: "length (pushProbe visited (hd q)) = length visited + 1"
    by (intro length_pushProbe [of q]) simp_all
  have "set q' \<subseteq> set (tl q @ moveGen (hd q))"
    using bfsPush_subset [OF expand(5)] by simp
  moreover have "withProbe (tl q @ moveGen (hd q))"
    using expand(1) by (simp add: withProbe_tl)
  ultimately have "withProbe q'" by (rule withProbe_subset)
  with len expand(1) show ?case by simp
qed

lemma bestLoop_count:
  assumes "sameShape start (map fst pq)"
    and "nodes = length visited \<and> withProbe (map fst pq)"
  shows "\<forall>e r. bestLoop start dockPos maxNodes pq parent seen nodes visited = Some (e, r)
    \<longrightarrow> nodesExpanded r = length (visitedProbe r)"
  using assms
proof (induction rule: bestLoop_rule
    [where I = "\<lambda>pq parent seen nodes visited.
       nodes = length visited \<and> withProbe (map fst pq)"])
  case (empty parent seen nodes visited)
  then show ?case by (simp add: failed_def)
next
  case (seen pq parent seen nodes visited)
  then show ?case using withProbe_tl [of "map fst pq"] by (simp add: map_tl)
next
  case (goal pq parent seen nodes visited)
  then have "length (pushProbe visited (fst (hd pq))) = length visited + 1"
    by (intro length_pushProbe [of "map fst pq"]) simp_all
  with goal(1) show ?case by (auto simp: found_def)
next
  case (ceiling pq parent seen nodes visited)
  then have "length (pushProbe visited (fst (hd pq))) = length visited + 1"
    by (intro length_pushProbe [of "map fst pq"]) simp_all
  with ceiling(1) show ?case by (simp add: failed_def)
next
  case (expand pq parent seen nodes visited parent' pq')
  then have len: "length (pushProbe visited (fst (hd pq))) = length visited + 1"
    by (intro length_pushProbe [of "map fst pq"]) simp_all
  have "set (map fst pq') \<subseteq> set (map fst (tl pq) @ moveGen (fst (hd pq)))"
    using bestPush_queue [OF expand(6)] by simp
  moreover have "withProbe (map fst (tl pq) @ moveGen (fst (hd pq)))"
    using expand(1) withProbe_tl [of "map fst pq"] by (simp add: map_tl)
  ultimately have "withProbe (map fst pq')" by (rule withProbe_subset)
  with len expand(1) show ?case by simp
qed

section \<open>Depth-first and best-first search: the parent map holds walks\<close>

lemma frontierOk_step:
  assumes ch: "chained start parent"
    and fr: "frontierOk start parent rest"
    and ws: "parentChain parent start ws"
    and h: "h \<in> set (moveGen (last ws))"
  defines "parent' \<equiv>
    (if parent (serializeGrid h) = None
     then parent(serializeGrid h \<mapsto> Some (serializeGrid (last ws))) else parent)"
  shows "frontierOk start parent' rest" and "frontierOk start parent' [h]"
proof -
  note cs = chained_set [OF ch ws h, folded parent'_def]
  show "frontierOk start parent' rest"
    using fr cs(4) unfolding frontierOk_def by blast
  have "map length h = map length start"
    using moveGen_shape [OF h] parentChain_shape [OF ws] by simp
  then show "frontierOk start parent' [h]"
    using cs(3) by (simp add: frontierOk_def)
qed

lemma frontierOk_append:
  "frontierOk start parent (xs @ ys) \<longleftrightarrow> frontierOk start parent xs \<and> frontierOk start parent ys"
  by (auto simp: frontierOk_def)

lemma frontierOk_subset:
  "set xs \<subseteq> set ys \<Longrightarrow> frontierOk start parent ys \<Longrightarrow> frontierOk start parent xs"
  unfolding frontierOk_def by blast

lemma dfsPush_fold:
  assumes "chained start parent" and "frontierOk start parent rest"
    and "parentChain parent start ws" and "set nexts \<subseteq> set (moveGen (last ws))"
    and "foldl (dfsPush (serializeGrid (last ws))) (parent, rest) nexts = (parent', stack')"
  shows "chained start parent' \<and> frontierOk start parent' stack'"
  using assms
proof (induction nexts arbitrary: parent rest)
  case Nil
  then show ?case by simp
next
  case (Cons h nexts)
  let ?p1 = "if parent (serializeGrid h) = None
     then parent(serializeGrid h \<mapsto> Some (serializeGrid (last ws))) else parent"
  have h: "h \<in> set (moveGen (last ws))" using Cons.prems(4) by simp
  note cs = chained_set [OF Cons.prems(1,3) h]
  note fs = frontierOk_step [OF Cons.prems(1,2,3) h]
  have step: "dfsPush (serializeGrid (last ws)) (parent, rest) h = (?p1, rest @ [h])"
    by (simp add: dfsPush_def Let_def)
  show ?case
  proof (rule Cons.IH [of ?p1 "rest @ [h]"])
    show "chained start ?p1" by (rule cs(1))
    show "frontierOk start ?p1 (rest @ [h])"
      using fs by (simp only: frontierOk_append)
    show "parentChain ?p1 start ws" by (rule cs(2))
    show "set nexts \<subseteq> set (moveGen (last ws))" using Cons.prems(4) by simp
    show "foldl (dfsPush (serializeGrid (last ws))) (?p1, rest @ [h]) nexts = (parent', stack')"
      using Cons.prems(5) by (simp only: foldl_Cons step)
  qed
qed

lemma bestPush_fold:
  assumes "chained start parent" and "frontierOk start parent (map fst pq)"
    and "parentChain parent start ws" and "set nexts \<subseteq> set (moveGen (last ws))"
    and "foldl (bestPush dockPos (serializeGrid (last ws))) (parent, pq) nexts = (parent', pq')"
  shows "chained start parent' \<and> frontierOk start parent' (map fst pq')"
  using assms
proof (induction nexts arbitrary: parent pq)
  case Nil
  then show ?case by simp
next
  case (Cons h nexts)
  let ?p1 = "if parent (serializeGrid h) = None
     then parent(serializeGrid h \<mapsto> Some (serializeGrid (last ws))) else parent"
  have h: "h \<in> set (moveGen (last ws))" using Cons.prems(4) by simp
  note cs = chained_set [OF Cons.prems(1,3) h]
  note fs = frontierOk_step [OF Cons.prems(1,2,3) h]
  have step: "bestPush dockPos (serializeGrid (last ws)) (parent, pq) h = (?p1, pushPQ dockPos pq h)"
    by (simp add: bestPush_def Let_def)
  show ?case
  proof (rule Cons.IH [of ?p1 "pushPQ dockPos pq h"])
    show "chained start ?p1" by (rule cs(1))
    have "frontierOk start ?p1 ([h] @ map fst pq)"
      using fs by (simp only: frontierOk_append)
    moreover have "set (map fst (pushPQ dockPos pq h)) \<subseteq> set ([h] @ map fst pq)"
      using pushPQ_grids [of dockPos pq h] by simp
    ultimately show "frontierOk start ?p1 (map fst (pushPQ dockPos pq h))"
      by (rule frontierOk_subset [rotated])
    show "parentChain ?p1 start ws" by (rule cs(2))
    show "set nexts \<subseteq> set (moveGen (last ws))" using Cons.prems(4) by simp
    show "foldl (bestPush dockPos (serializeGrid (last ws))) (?p1, pushPQ dockPos pq h) nexts
        = (parent', pq')"
      using Cons.prems(5) by (simp only: foldl_Cons step)
  qed
qed

lemma chained_init: "chained start [serializeGrid start \<mapsto> None]"
  unfolding chained_def
proof (intro allI impI)
  fix k
  assume "[serializeGrid start \<mapsto> None] k \<noteq> None"
  then have "k = serializeGrid start" by (simp split: if_splits)
  moreover have "parentChain [serializeGrid start \<mapsto> None] start [start]"
    by (rule chain_start) simp
  ultimately show "\<exists>ws. parentChain [serializeGrid start \<mapsto> None] start ws \<and>
      serializeGrid (last ws) = k"
    by (intro exI [of _ "[start]"]) simp
qed

lemma walk_keys_nonempty:
  assumes "isWalk ws" and "cellAt (hd ws) r c \<noteq> None" and "g \<in> set ws"
  shows "serializeGrid g \<noteq> []"
proof -
  from isWalk_shape [OF assms(1,3)] have "map length g = map length (hd ws)" .
  from shape_cellAt_None [OF this] assms(2) have "cellAt g r c \<noteq> None" by simp
  then show ?thesis by (rule serializeGrid_nonempty)
qed

lemma frontierOk_butlast: "frontierOk start parent xs \<Longrightarrow> frontierOk start parent (butlast xs)"
  by (rule frontierOk_subset [of "butlast xs" xs]) (auto dest: in_set_butlastD)

lemma frontierOk_tl: "frontierOk start parent xs \<Longrightarrow> frontierOk start parent (tl xs)"
  by (rule frontierOk_subset [of "tl xs" xs]) (cases xs; auto)+

lemma dfsLoop_result:
  assumes cell: "cellAt start r0 c0 \<noteq> None"
    and inv: "chained start parent \<and> frontierOk start parent stack"
  shows "\<exists>e r. dfsLoop start dockPos maxNodes stack parent seen nodes visited = Some (e, r) \<and>
    ((e = GoalFound) = (path r \<noteq> None)) \<and> e \<noteq> NoStart \<and>
    (\<forall>p. path r = Some p \<longrightarrow>
       (\<exists>ws. isWalk ws \<and> hd ws = start \<and> goalTest dockPos (last ws) \<and>
          p = map (\<lambda>g. deserializeGrid (serializeGrid g) (length start) (cols start)) ws))"
proof -
  from inv have "sameShape start stack"
    by (simp add: frontierOk_def sameShape_def)
  then show ?thesis
    using inv
  proof (induction rule: dfsLoop_rule
      [where I = "\<lambda>stack parent seen nodes visited.
         chained start parent \<and> frontierOk start parent stack"])
    case (empty parent seen nodes visited)
    then show ?case by (simp add: failed_def)
  next
    case (seen stack parent seen nodes visited)
    then show ?case by (simp add: frontierOk_butlast)
  next
    case (goal stack parent seen nodes visited)
    then have "last stack \<in> set stack" by simp
    with goal(1) have "map length (last stack) = map length start"
        "parent (serializeGrid (last stack)) \<noteq> None"
      unfolding frontierOk_def by blast+
    with goal(1) obtain ws where ws: "parentChain parent start ws" "last ws = last stack"
      by (auto elim: chain_of_frontier)
    from chain_walk [OF ws(1)] have w: "isWalk ws" "hd ws = start" by simp_all
    have "\<forall>g\<in>set ws. serializeGrid g \<noteq> []"
      using walk_keys_nonempty [OF w(1)] cell w(2) by blast
    from dfsPath_chain [OF ws(1) this, of "length start" "cols start" "[]"] ws(2)
    have "dfsPath parent (length start) (cols start) (serializeGrid (last stack)) [] =
        Some (map (\<lambda>g. deserializeGrid (serializeGrid g) (length start) (cols start)) ws)"
      by simp
    moreover have "goalTest dockPos (last ws)"
      using goal(4) ws(2) by (simp add: goalTest_def)
    ultimately show ?case
      using w goal(1) by (auto simp: found_def)
  next
    case (ceiling stack parent seen nodes visited)
    then show ?case by (simp add: failed_def)
  next
    case (expand stack parent seen nodes visited parent' stack')
    then have "last stack \<in> set stack" by simp
    with expand(1) have "map length (last stack) = map length start"
        "parent (serializeGrid (last stack)) \<noteq> None"
      unfolding frontierOk_def by blast+
    with expand(1) obtain ws where ws: "parentChain parent start ws" "last ws = last stack"
      by (auto elim: chain_of_frontier)
    have "chained start parent' \<and> frontierOk start parent' stack'"
    proof (rule dfsPush_fold [OF _ _ ws(1)])
      show "chained start parent" using expand(1) by simp
      show "frontierOk start parent (butlast stack)"
        using expand(1) by (simp add: frontierOk_butlast)
      show "set (moveGen (last stack)) \<subseteq> set (moveGen (last ws))"
        using ws(2) by simp
      show "foldl (dfsPush (serializeGrid (last ws))) (parent, butlast stack) (moveGen (last stack))
          = (parent', stack')"
        using expand(6) ws(2) by simp
    qed
    then show ?case by simp
  qed
qed

lemma bestLoop_result:
  assumes inv: "chained start parent \<and> frontierOk start parent (map fst pq)"
  shows "\<exists>e r. bestLoop start dockPos maxNodes pq parent seen nodes visited = Some (e, r) \<and>
    ((e = GoalFound) = (path r \<noteq> None)) \<and> e \<noteq> NoStart \<and>
    (\<forall>p. path r = Some p \<longrightarrow>
       (\<exists>ws. isWalk ws \<and> hd ws = start \<and> goalTest (Some dockPos) (last ws) \<and>
          p = map (\<lambda>g. deserializeGrid (serializeGrid g) (length start) (cols start)) ws))"
proof -
  from inv have "sameShape start (map fst pq)"
    by (simp add: frontierOk_def sameShape_def)
  then show ?thesis
    using inv
  proof (induction rule: bestLoop_rule
      [where I = "\<lambda>pq parent seen nodes visited.
         chained start parent \<and> frontierOk start parent (map fst pq)"])
    case (empty parent seen nodes visited)
    then show ?case by (simp add: failed_def)
  next
    case (seen pq parent seen nodes visited)
    then show ?case using frontierOk_tl [of start parent "map fst pq"] by (simp add: map_tl)
  next
    case (goal pq parent seen nodes visited)
    then have "fst (hd pq) \<in> set (map fst pq)" by simp
    with goal(1) have "map length (fst (hd pq)) = map length start"
        "parent (serializeGrid (fst (hd pq))) \<noteq> None"
      unfolding frontierOk_def by blast+
    with goal(1) obtain ws where ws: "parentChain parent start ws" "last ws = fst (hd pq)"
      by (auto elim: chain_of_frontier)
    from chain_walk [OF ws(1)] have w: "isWalk ws" "hd ws = start" by simp_all
    from bfsPath_chain [OF ws(1), of "length start" "cols start" "[]"] ws(2)
    have "bfsPath parent (length start) (cols start) (Some (serializeGrid (fst (hd pq)))) [] =
        Some (map (\<lambda>g. deserializeGrid (serializeGrid g) (length start) (cols start)) ws)"
      by simp
    moreover have "goalTest (Some dockPos) (last ws)"
      using goal(4) ws(2) by (simp add: goalTest_def)
    ultimately show ?case
      using w goal(1) by (auto simp: found_def)
  next
    case (ceiling pq parent seen nodes visited)
    then show ?case by (simp add: failed_def)
  next
    case (expand pq parent seen nodes visited parent' pq')
    then have "fst (hd pq) \<in> set (map fst pq)" by simp
    with expand(1) have "map length (fst (hd pq)) = map length start"
        "parent (serializeGrid (fst (hd pq))) \<noteq> None"
      unfolding frontierOk_def by blast+
    with expand(1) obtain ws where ws: "parentChain parent start ws" "last ws = fst (hd pq)"
      by (auto elim: chain_of_frontier)
    have "chained start parent' \<and> frontierOk start parent' (map fst pq')"
    proof (rule bestPush_fold [OF _ _ ws(1)])
      show "chained start parent" using expand(1) by simp
      show "frontierOk start parent (map fst (tl pq))"
        using expand(1) frontierOk_tl [of start parent "map fst pq"] by (simp add: map_tl)
      show "set (moveGen (fst (hd pq))) \<subseteq> set (moveGen (last ws))"
        using ws(2) by simp
      show "foldl (bestPush dockPos (serializeGrid (last ws))) (parent, tl pq) (moveGen (fst (hd pq)))
          = (parent', pq')"
        using expand(6) ws(2) by simp
    qed
    then show ?case by simp
  qed
qed

section \<open>Breadth-first search: the parent map holds shortest walks\<close>

lemma minMoves_le:
  assumes "isWalk ws" and "hd ws = start" and "last ws = g"
  shows "Suc (minMoves start g) \<le> length ws"
proof -
  from assms(1) obtain n where n: "length ws = Suc n"
    by (cases ws) auto
  have "minMoves start g \<le> n"
    unfolding minMoves_def using assms n by (intro Least_le) blast
  with n show ?thesis by simp
qed

lemma minMoves_walk:
  assumes "isWalk ws" and "hd ws = start" and "last ws = g"
  obtains vs where "isWalk vs" "hd vs = start" "last vs = g" "length vs = Suc (minMoves start g)"
proof -
  from assms(1) obtain n where n: "length ws = Suc n"
    by (cases ws) auto
  have "\<exists>vs. isWalk vs \<and> hd vs = start \<and> last vs = g \<and> length vs = Suc (minMoves start g)"
    unfolding minMoves_def
    by (rule LeastI [of "\<lambda>n. \<exists>gs. isWalk gs \<and> hd gs = start \<and> last gs = g \<and> length gs = Suc n" n])
      (use assms n in blast)
  then show thesis using that by blast
qed

lemma isWalk_snoc_last:
  assumes "isWalk ws" and "h \<in> set (moveGen (last ws))"
  shows "isWalk (ws @ [h])" and "hd (ws @ [h]) = hd ws" and "last (ws @ [h]) = h"
proof -
  from assms(1) have ne: "ws \<noteq> []" by auto
  then have ws: "ws = butlast ws @ [last ws]" by simp
  have "isWalk (butlast ws @ [last ws, h])"
    using assms ws by (intro isWalk_snoc) simp_all
  then show "isWalk (ws @ [h])"
    using ws by (metis append.assoc append_Cons append_Nil)
  show "hd (ws @ [h]) = hd ws" using ne by simp
  show "last (ws @ [h]) = h" by simp
qed

lemma minMoves_succ:
  assumes "isWalk ws" and "hd ws = start" and "last ws = g" and "h \<in> set (moveGen g)"
  shows "minMoves start h \<le> minMoves start g + 1"
proof -
  from assms(1-3) obtain vs where vs: "isWalk vs" "hd vs = start" "last vs = g"
      "length vs = Suc (minMoves start g)"
    by (rule minMoves_walk)
  from isWalk_snoc_last [OF vs(1), of h] assms(4) vs(2,3)
  have "isWalk (vs @ [h])" "hd (vs @ [h]) = start" "last (vs @ [h]) = h"
    by simp_all
  from minMoves_le [OF this] vs(4) show ?thesis by simp
qed

lemma isWalk_hd_take: "ws \<noteq> [] \<Longrightarrow> hd (take (Suc i) ws) = hd ws"
  by (cases ws) simp_all

lemma minMoves_nth:
  assumes "isWalk ws" and "hd ws = start" and "i < length ws"
  shows "minMoves start (ws ! i) \<le> i"
proof -
  have w: "isWalk (take (Suc i) ws)"
    using assms(1) by (rule isWalk_take) simp
  have h: "hd (take (Suc i) ws) = start"
    using assms(1,2) isWalk_hd_take [of ws i] by auto
  have l: "last (take (Suc i) ws) = ws ! i"
    using assms(3) by (simp add: take_Suc_conv_app_nth)
  from minMoves_le [OF w h l] assms(3) show ?thesis by simp
qed

lemma frontier_hit:
  assumes cl: "closedOutside start dockPos parent X"
    and st: "seenGrid start parent start"
    and w: "isWalk ws" "hd ws = start"
    and fresh: "\<not> seenGrid start parent (last ws) \<or> goalTest dockPos (last ws)"
  shows "\<exists>i<length ws. ws ! i \<in> X"
proof (rule ccontr)
  assume "\<not> (\<exists>i<length ws. ws ! i \<in> X)"
  then have out: "ws ! i \<notin> X" if "i < length ws" for i
    using that by blast
  have ne: "ws \<noteq> []" using w(1) by auto
  have seen: "i < length ws \<Longrightarrow> seenGrid start parent (ws ! i)" for i
  proof (induction i)
    case 0
    then show ?case using st w(2) ne by (simp add: hd_conv_nth)
  next
    case (Suc i)
    then have "seenGrid start parent (ws ! i)" "ws ! i \<notin> X"
      using out by simp_all
    moreover have "ws ! Suc i \<in> set (moveGen (ws ! i))"
      using w(1) Suc.prems by (rule isWalk_step)
    ultimately show ?case
      using cl unfolding closedOutside_def by blast
  qed
  have l: "last ws = ws ! (length ws - 1)"
    using ne by (rule last_conv_nth)
  have "seenGrid start parent (last ws)" "last ws \<notin> X"
    unfolding l using seen [of "length ws - 1"] out [of "length ws - 1"] ne by simp_all
  with cl fresh show False
    unfolding closedOutside_def by blast
qed

lemma seenGrid_mono:
  "seenGrid start parent x \<Longrightarrow> parent k = None \<Longrightarrow> seenGrid start (parent(k \<mapsto> v)) x"
  by (auto simp: seenGrid_def)

lemma bfsPush_step:
  assumes inv: "bfsFoldInv start dockPos g q parent seen"
    and h: "h \<in> set (moveGen g)"
    and push: "bfsPush (serializeGrid g) (q, parent, seen) h = (q1, parent1, seen1)"
  shows "bfsFoldInv start dockPos g q1 parent1 seen1"
    and "seenGrid start parent1 h"
    and "\<And>x. seenGrid start parent x \<Longrightarrow> seenGrid start parent1 x"
proof -
  let ?D = "minMoves start"
  from inv obtain wsg where
    K1: "seen = {k. parent k \<noteq> None}"
    and K7: "parent (serializeGrid start) \<noteq> None"
    and K2: "frontierOk start parent q"
    and K3: "shortestChained start parent"
    and K4: "sorted (map ?D q)" "\<forall>x\<in>set q. ?D g \<le> ?D x \<and> ?D x \<le> ?D g + 1"
    and K5: "closedOutside start dockPos parent (insert g (set q))"
    and wsg: "parentChain parent start wsg" "last wsg = g" "length wsg = Suc (?D g)"
    unfolding bfsFoldInv_def by blast
  from chain_walk [OF wsg(1)] have wg: "isWalk wsg" "hd wsg = start" by simp_all
  have shape_g: "map length g = map length start"
    using parentChain_shape [OF wsg(1)] wsg(2) by simp
  have shape_h: "map length h = map length start"
    using moveGen_shape [OF h] shape_g by simp
  have g_in: "g \<in> set wsg"
    using wg(1) wsg(2) by (metis isWalk_nonempty last_in_set)
  have seen_g: "seenGrid start parent g"
    using chain_keys [OF wsg(1) g_in] shape_g by (simp add: seenGrid_def)
  have all: "bfsFoldInv start dockPos g q1 parent1 seen1 \<and> seenGrid start parent1 h \<and>
    (\<forall>x. seenGrid start parent x \<longrightarrow> seenGrid start parent1 x)"
  proof (cases "serializeGrid h \<in> seen")
    case True
    then have "q1 = q" "parent1 = parent" "seen1 = seen"
      using push by (simp_all add: bfsPush_def Let_def)
    moreover have "seenGrid start parent h"
      using True K1 shape_h by (simp add: seenGrid_def)
    ultimately show ?thesis using inv by simp
  next
    case False
    then have none: "parent (serializeGrid h) = None"
      using K1 by simp
    from False have new: "q1 = q @ [h]"
        "parent1 = parent(serializeGrid h \<mapsto> Some (serializeGrid g))"
        "seen1 = insert (serializeGrid h) seen"
      using push by (simp_all add: bfsPush_def Let_def)
    have mono: "seenGrid start parent1 x" if "seenGrid start parent x" for x
      unfolding new(2) using that none by (rule seenGrid_mono)
    have seen_h: "seenGrid start parent1 h"
      using shape_h by (simp add: seenGrid_def new(2))
    have unseen_h: "\<not> seenGrid start parent h"
      using none by (simp add: seenGrid_def)
    have wh: "isWalk (wsg @ [h])" "hd (wsg @ [h]) = start" "last (wsg @ [h]) = h"
      using isWalk_snoc_last [OF wg(1), of h] h wsg(2) wg(2) by simp_all
    have upper: "?D h \<le> ?D g + 1"
      using wg wsg(2) h by (rule minMoves_succ)
    have lower: "?D g < ?D h"
    proof -
      from wh obtain vs where vs: "isWalk vs" "hd vs = start" "last vs = h"
          "length vs = Suc (?D h)"
        by (rule minMoves_walk)
      have "seenGrid start parent start"
        using K7 by (simp add: seenGrid_def)
      from frontier_hit [OF K5 this vs(1,2)] unseen_h vs(3)
      obtain i where i: "i < length vs" "vs ! i \<in> insert g (set q)"
        by auto
      have seen_i: "seenGrid start parent (vs ! i)"
        using i(2) seen_g K2 by (auto simp: seenGrid_def frontierOk_def)
      have "i \<noteq> length vs - 1"
      proof
        assume "i = length vs - 1"
        then have "vs ! i = last vs"
          using vs(1) by (metis isWalk_nonempty last_conv_nth)
        with seen_i unseen_h vs(3) show False by simp
      qed
      with i(1) vs(4) have "i < ?D h" by simp
      moreover have "?D (vs ! i) \<le> i"
        using vs(1,2) i(1) by (rule minMoves_nth)
      moreover have "?D g \<le> ?D (vs ! i)"
        using i(2) K4(2) by auto
      ultimately show ?thesis by simp
    qed
    from upper lower have Dh: "?D h = ?D g + 1" by simp
    have c1: "seen1 = {k. parent1 k \<noteq> None}"
      using K1 by (auto simp: new)
    have c2: "parent1 (serializeGrid start) \<noteq> None"
      using K7 by (simp add: new(2))
    have c3: "frontierOk start parent1 q1"
      using K2 shape_h by (auto simp: frontierOk_def new)
    have keep: "parentChain parent1 start ws" if "parentChain parent start ws" for ws
      unfolding new(2) using that none by (rule chain_upd)
    have chain_h: "parentChain parent1 start (wsg @ [h])"
    proof (rule parentChain_snoc [OF keep [OF wsg(1)]])
      show "h \<in> set (moveGen (last wsg))" using h wsg(2) by simp
      show "parent1 (serializeGrid h) = Some (Some (serializeGrid (last wsg)))"
        using wsg(2) by (simp add: new(2))
    qed
    have c4: "shortestChained start parent1"
      unfolding shortestChained_def
    proof (intro allI impI)
      fix k
      assume k: "parent1 k \<noteq> None"
      show "\<exists>ws. parentChain parent1 start ws \<and> serializeGrid (last ws) = k \<and>
          length ws = Suc (?D (last ws))"
      proof (cases "k = serializeGrid h")
        case True
        show ?thesis
          using chain_h True Dh wsg(3) by (intro exI [of _ "wsg @ [h]"]) simp
      next
        case False
        with k have "parent k \<noteq> None" by (simp add: new(2))
        with K3 obtain ws where "parentChain parent start ws" "serializeGrid (last ws) = k"
            "length ws = Suc (?D (last ws))"
          unfolding shortestChained_def by blast
        then show ?thesis using keep by blast
      qed
    qed
    have c5: "sorted (map ?D q1)"
      using K4 Dh by (auto simp: new(1) sorted_append)
    have c6: "\<forall>x\<in>set q1. ?D g \<le> ?D x \<and> ?D x \<le> ?D g + 1"
      using K4(2) Dh by (auto simp: new(1))
    have c7: "closedOutside start dockPos parent1 (insert g (set q1))"
      unfolding closedOutside_def
    proof (intro allI impI)
      fix x
      assume x: "seenGrid start parent1 x \<and> x \<notin> insert g (set q1)"
      then have xh: "x \<noteq> h" by (simp add: new(1))
      have "serializeGrid x \<noteq> serializeGrid h"
      proof
        assume "serializeGrid x = serializeGrid h"
        moreover have "map length x = map length h"
          using x shape_h by (simp add: seenGrid_def)
        ultimately have "x = h" by (rule serializeGrid_inj)
        with xh show False by simp
      qed
      with x have "seenGrid start parent x" "x \<notin> insert g (set q)"
        by (simp_all add: seenGrid_def new)
      with K5 have "\<not> goalTest dockPos x" "\<forall>y\<in>set (moveGen x). seenGrid start parent y"
        unfolding closedOutside_def by blast+
      then show "\<not> goalTest dockPos x \<and> (\<forall>y\<in>set (moveGen x). seenGrid start parent1 y)"
        using mono by blast
    qed
    have c8: "\<exists>ws. parentChain parent1 start ws \<and> last ws = g \<and> length ws = Suc (?D g)"
      using keep [OF wsg(1)] wsg(2,3) by blast
    show ?thesis
      unfolding bfsFoldInv_def using c1 c2 c3 c4 c5 c6 c7 c8 seen_h mono by blast
  qed
  then show "bfsFoldInv start dockPos g q1 parent1 seen1"
    and "seenGrid start parent1 h"
    and "\<And>x. seenGrid start parent x \<Longrightarrow> seenGrid start parent1 x"
    by blast+
qed

lemma bfsPush_fold:
  assumes "bfsFoldInv start dockPos g q parent seen"
    and "set nexts \<subseteq> set (moveGen g)"
    and "\<forall>h\<in>set (moveGen g). h \<in> set nexts \<or> seenGrid start parent h"
    and "foldl (bfsPush (serializeGrid g)) (q, parent, seen) nexts = (q', parent', seen')"
  shows "bfsFoldInv start dockPos g q' parent' seen' \<and>
    (\<forall>h\<in>set (moveGen g). seenGrid start parent' h)"
  using assms
proof (induction nexts arbitrary: q parent seen)
  case Nil
  then show ?case by simp
next
  case (Cons h nexts)
  obtain q1 parent1 seen1 where
    push: "bfsPush (serializeGrid g) (q, parent, seen) h = (q1, parent1, seen1)"
    by (cases "bfsPush (serializeGrid g) (q, parent, seen) h") auto
  have h: "h \<in> set (moveGen g)" using Cons.prems(2) by simp
  note st = bfsPush_step [OF Cons.prems(1) h push]
  show ?case
  proof (rule Cons.IH [OF st(1)])
    show "set nexts \<subseteq> set (moveGen g)" using Cons.prems(2) by simp
    show "\<forall>y\<in>set (moveGen g). y \<in> set nexts \<or> seenGrid start parent1 y"
      using Cons.prems(3) st(2,3) by auto
    show "foldl (bfsPush (serializeGrid g)) (q1, parent1, seen1) nexts = (q', parent', seen')"
      using Cons.prems(4) by (simp only: foldl_Cons push)
  qed
qed

lemma sorted_le_last: "sorted xs \<Longrightarrow> x \<in> set xs \<Longrightarrow> x \<le> (last xs :: nat)"
  by (induction xs) (auto split: if_splits)

lemma bfsInv_front:
  assumes inv: "bfsInv start dockPos q parent seen" and ne: "q \<noteq> []"
  obtains ws where "parentChain parent start ws" "last ws = hd q"
    "length ws = Suc (minMoves start (hd q))"
proof -
  from inv have fr: "frontierOk start parent q" and sc: "shortestChained start parent"
    unfolding bfsInv_def by simp_all
  from ne have "hd q \<in> set q" by simp
  with fr have sh: "map length (hd q) = map length start"
    and key: "parent (serializeGrid (hd q)) \<noteq> None"
    unfolding frontierOk_def by blast+
  from sc key obtain ws where ws: "parentChain parent start ws"
      "serializeGrid (last ws) = serializeGrid (hd q)" "length ws = Suc (minMoves start (last ws))"
    unfolding shortestChained_def by blast
  from parentChain_shape [OF ws(1)] sh have "map length (last ws) = map length (hd q)"
    by simp
  with ws(2) have "last ws = hd q" by (rule serializeGrid_inj)
  with ws(1,3) show thesis by (intro that [of ws]) simp_all
qed

lemma bfsLoop_result:
  assumes inv: "bfsInv start dockPos q parent seen"
  shows "\<exists>e r. bfsLoop start dockPos maxNodes q parent seen nodes visited = Some (e, r) \<and>
    ((e = GoalFound) = (path r \<noteq> None)) \<and> e \<noteq> NoStart \<and>
    (e = FrontierEmpty \<longrightarrow>
       (\<forall>ws. isWalk ws \<and> hd ws = start \<longrightarrow> \<not> goalTest dockPos (last ws))) \<and>
    (\<forall>p. path r = Some p \<longrightarrow>
       (\<exists>ws. isWalk ws \<and> hd ws = start \<and> goalTest dockPos (last ws) \<and>
          p = map (\<lambda>g. deserializeGrid (serializeGrid g) (length start) (cols start)) ws \<and>
          (\<forall>vs. isWalk vs \<and> hd vs = start \<and> goalTest dockPos (last vs) \<longrightarrow>
             length ws \<le> length vs)))"
proof -
  from inv have "sameShape start q"
    by (simp add: bfsInv_def frontierOk_def sameShape_def)
  then show ?thesis
    using inv
  proof (induction rule: bfsLoop_rule
      [where I = "\<lambda>q parent seen nodes visited. bfsInv start dockPos q parent seen"])
    case (empty parent seen nodes visited)
    then have cl: "closedOutside start dockPos parent {}"
      and st: "seenGrid start parent start"
      by (simp_all add: bfsInv_def seenGrid_def)
    have "\<not> goalTest dockPos (last ws)" if "isWalk ws" "hd ws = start" for ws
      using frontier_hit [OF cl st that] by auto
    then show ?case by (simp add: failed_def)
  next
    case (goal q parent seen nodes visited)
    let ?D = "minMoves start"
    from goal(1) have inv: "bfsInv start dockPos q parent seen" by simp
    from bfsInv_front [OF inv goal(2)] obtain ws where ws: "parentChain parent start ws"
        "last ws = hd q" "length ws = Suc (?D (hd q))"
      by blast
    from chain_walk [OF ws(1)] have w: "isWalk ws" "hd ws = start" by simp_all
    from bfsPath_chain [OF ws(1), of "length start" "cols start" "[]"] ws(2)
    have p: "bfsPath parent (length start) (cols start) (Some (serializeGrid (hd q))) [] =
        Some (map (\<lambda>g. deserializeGrid (serializeGrid g) (length start) (cols start)) ws)"
      by simp
    have gl: "goalTest dockPos (last ws)"
      using goal(3) ws(2) by (simp add: goalTest_def)
    have least: "length ws \<le> length vs"
      if vs: "isWalk vs \<and> hd vs = start \<and> goalTest dockPos (last vs)" for vs
    proof -
      from inv have cl: "closedOutside start dockPos parent (set q)"
        and st: "parent (serializeGrid start) \<noteq> None"
        and so: "sorted (map ?D q)"
        unfolding bfsInv_def by simp_all
      have "seenGrid start parent start"
        using st by (simp add: seenGrid_def)
      from frontier_hit [OF cl this] vs obtain i where i: "i < length vs" "vs ! i \<in> set q"
        by blast
      have "?D (vs ! i) \<le> i"
        using vs i(1) by (intro minMoves_nth) simp_all
      moreover have "?D (hd q) \<le> ?D (vs ! i)"
      proof -
        from goal(2) obtain x xs where q: "q = x # xs" by (cases q) auto
        with so i(2) show ?thesis by auto
      qed
      ultimately show ?thesis using i(1) ws(3) by simp
    qed
    show ?case
      unfolding p using w gl least goal(1) by (auto simp: found_def)
  next
    case (ceiling q parent seen nodes visited)
    then show ?case by (simp add: failed_def)
  next
    case (expand q parent seen nodes visited q' parent' seen')
    let ?D = "minMoves start"
    let ?g = "hd q"
    from expand(1) have inv: "bfsInv start dockPos q parent seen" by simp
    from expand(2) have q: "q = ?g # tl q" by simp
    from bfsInv_front [OF inv expand(2)] obtain ws where ws: "parentChain parent start ws"
        "last ws = ?g" "length ws = Suc (?D ?g)"
      by blast
    from inv have K1: "seen = {k. parent k \<noteq> None}"
      and K7: "parent (serializeGrid start) \<noteq> None"
      and fr: "frontierOk start parent q"
      and sc: "shortestChained start parent"
      and cl: "closedOutside start dockPos parent (set q)"
      and so: "sorted (map ?D q)"
      and la: "?D (last q) \<le> ?D ?g + 1"
      unfolding bfsInv_def using expand(2) by simp_all
    have so': "sorted (map ?D (tl q))"
      using so by (subst (asm) q) simp
    have lo: "?D ?g \<le> ?D x" if "x \<in> set (tl q)" for x
      using so that by (subst (asm) q) auto
    have hi: "?D x \<le> ?D ?g + 1" if "x \<in> set (tl q)" for x
    proof -
      from that have "x \<in> set q" by (metis list.set_sel(2) expand(2))
      then have "?D x \<in> set (map ?D q)" by simp
      from sorted_le_last [OF so this] have "?D x \<le> ?D (last q)"
        using expand(2) by (simp add: last_map)
      with la show ?thesis by simp
    qed
    have cl': "closedOutside start dockPos parent (insert ?g (set (tl q)))"
      using cl by (subst (asm) q) simp
    have finv: "bfsFoldInv start dockPos ?g (tl q) parent seen"
      unfolding bfsFoldInv_def
      using K1 K7 frontierOk_tl [OF fr] sc so' lo hi cl' ws by blast
    from bfsPush_fold [OF finv _ _ expand(5)]
    have res: "bfsFoldInv start dockPos ?g q' parent' seen'"
      and succ: "\<forall>h\<in>set (moveGen ?g). seenGrid start parent' h"
      by simp_all
    from res have R1: "seen' = {k. parent' k \<noteq> None}"
      and R7: "parent' (serializeGrid start) \<noteq> None"
      and R2: "frontierOk start parent' q'"
      and R3: "shortestChained start parent'"
      and R4: "sorted (map ?D q')"
      and R5: "\<forall>x\<in>set q'. ?D ?g \<le> ?D x \<and> ?D x \<le> ?D ?g + 1"
      and R6: "closedOutside start dockPos parent' (insert ?g (set q'))"
      unfolding bfsFoldInv_def by blast+
    have ng: "\<not> goalTest dockPos ?g"
      using expand(3) by (simp add: goalTest_def)
    have R6': "closedOutside start dockPos parent' (set q')"
      unfolding closedOutside_def
    proof (intro allI impI)
      fix x
      assume x: "seenGrid start parent' x \<and> x \<notin> set q'"
      show "\<not> goalTest dockPos x \<and> (\<forall>h\<in>set (moveGen x). seenGrid start parent' h)"
      proof (cases "x = ?g")
        case True
        with ng succ show ?thesis by simp
      next
        case False
        with x R6 show ?thesis unfolding closedOutside_def by blast
      qed
    qed
    have R8: "q' \<noteq> [] \<longrightarrow> ?D (last q') \<le> ?D (hd q') + 1"
    proof
      assume "q' \<noteq> []"
      then have "last q' \<in> set q'" "hd q' \<in> set q'" by simp_all
      with R5 have "?D (last q') \<le> ?D ?g + 1" "?D ?g \<le> ?D (hd q')" by blast+
      then show "?D (last q') \<le> ?D (hd q') + 1" by simp
    qed
    show ?case
      unfolding bfsInv_def using R1 R7 R2 R3 R4 R6' R8 by simp
  qed
qed

section \<open>The results of the three solvers\<close>

lemma minMoves_start [simp]: "minMoves start start = 0"
  using minMoves_le [of "[start]" start start] by simp

lemma bfsInv_init:
  "bfsInv start dockPos [start] [serializeGrid start \<mapsto> None] {serializeGrid start}"
proof -
  let ?parent = "[serializeGrid start \<mapsto> None]"
  have c: "parentChain ?parent start [start]"
    by (rule chain_start) simp
  have "shortestChained start ?parent"
    unfolding shortestChained_def
  proof (intro allI impI)
    fix k
    assume "?parent k \<noteq> None"
    then have "k = serializeGrid start" by (simp split: if_splits)
    with c show "\<exists>ws. parentChain ?parent start ws \<and> serializeGrid (last ws) = k \<and>
        length ws = Suc (minMoves start (last ws))"
      by (intro exI [of _ "[start]"]) simp
  qed
  moreover have "closedOutside start dockPos ?parent (set [start])"
    unfolding closedOutside_def
  proof (intro allI impI)
    fix g
    assume g: "seenGrid start ?parent g \<and> g \<notin> set [start]"
    then have "serializeGrid g = serializeGrid start" "map length g = map length start"
      by (auto simp: seenGrid_def split: if_splits)
    then have "g = start" by (rule serializeGrid_inj)
    with g show "\<not> goalTest dockPos g \<and> (\<forall>h\<in>set (moveGen g). seenGrid start ?parent h)"
      by simp
  qed
  ultimately show ?thesis
    by (auto simp: bfsInv_def frontierOk_def split: if_splits)
qed

lemma dfsSearch_loop:
  "findCell start DOCK \<noteq> None \<Longrightarrow> findCell start PROBE \<noteq> None \<Longrightarrow>
   dfsSearch start maxNodes =
     dfsLoop start (findCell start DOCK) maxNodes [start] [serializeGrid start \<mapsto> None] {} 0 []"
  by (auto simp: dfsSearch_def Let_def)

lemma bfsSearch_loop:
  "findCell start DOCK \<noteq> None \<Longrightarrow> findCell start PROBE \<noteq> None \<Longrightarrow>
   bfsSearch start maxNodes =
     bfsLoop start (findCell start DOCK) maxNodes [start] [serializeGrid start \<mapsto> None]
       {serializeGrid start} 0 []"
  by (auto simp: bfsSearch_def Let_def)

lemma bestFirstSearch_loop:
  "findCell start DOCK = Some d \<Longrightarrow>
   bestFirstSearch start maxNodes =
     bestLoop start d maxNodes (pushPQ d [] start) [serializeGrid start \<mapsto> None] {} 0 []"
  by (simp add: bestFirstSearch_def)

lemma sameShape_start [simp]: "sameShape start [start]"
  by (simp add: sameShape_def)

lemma pushPQ_start:
  "findCell start PROBE \<noteq> None \<Longrightarrow> map fst (pushPQ d [] start) = [start]"
  by (auto simp: pushPQ_def split: option.splits)

lemma isGoal_never [simp]: "\<not> isGoal g"
proof
  assume "isGoal g"
  then obtain p d where pd: "findCell g PROBE = Some p" "findCell g DOCK = Some d"
      "fst p = fst d" "snd p = snd d"
    by (auto simp: isGoal_def split: option.splits)
  obtain pr pc where p: "p = (pr, pc)" by (cases p)
  obtain dr' dc' where d: "d = (dr', dc')" by (cases d)
  from findCell_Some(1) [of g PROBE pr pc] findCell_Some(1) [of g DOCK dr' dc'] pd p d
  show False by simp
qed

lemma no_dock_no_solution:
  "findCell start DOCK = None \<Longrightarrow> \<not> solutionWalk start ws"
  by (simp add: solutionWalk_def goalTest_def isAtDock_def)

lemma no_probe_no_solution:
  assumes "findCell start PROBE = None"
  shows "\<not> solutionWalk start ws"
proof
  assume "solutionWalk start ws"
  then have w: "isWalk ws" "hd ws = start" "goalTest (findCell start DOCK) (last ws)"
    by (simp_all add: solutionWalk_def)
  have none: "moveGen start = []"
    using assms by (simp add: moveGen_def)
  have "ws = [start]"
  proof (cases ws)
    case Nil
    with w(1) show ?thesis by simp
  next
    case (Cons g gs)
    with w(2) have g: "g = start" by simp
    show ?thesis
    proof (cases gs)
      case Nil
      with Cons g show ?thesis by simp
    next
      case (Cons h hs)
      with \<open>ws = g # gs\<close> w(1) g none show ?thesis by simp
    qed
  qed
  with w(3) assms show False
    by (simp add: goalTest_def isGoal_def isAtDock_def split: option.splits)
qed

lemma dfsSearch_result:
  "\<exists>e r. dfsSearch start maxNodes = Some (e, r) \<and>
    ((e = GoalFound) = (path r \<noteq> None)) \<and>
    (\<forall>p. path r = Some p \<longrightarrow>
       (\<exists>ws. solutionWalk start ws \<and> findCell start PROBE \<noteq> None \<and>
          p = map (\<lambda>g. deserializeGrid (serializeGrid g) (length start) (cols start)) ws))"
proof (cases "findCell start DOCK = None \<or> findCell start PROBE = None")
  case True
  then show ?thesis by (auto simp: dfsSearch_def failed_def)
next
  case False
  then obtain r0 c0 where "findCell start PROBE = Some (r0, c0)" by auto
  then have cell: "cellAt start r0 c0 \<noteq> None"
    using findCell_Some(1) by fastforce
  have "chained start [serializeGrid start \<mapsto> None] \<and>
      frontierOk start [serializeGrid start \<mapsto> None] [start]"
    by (simp add: chained_init frontierOk_def)
  from dfsLoop_result [OF cell this, of "findCell start DOCK" maxNodes "{}" 0 "[]"]
  obtain e r where er:
    "dfsLoop start (findCell start DOCK) maxNodes [start] [serializeGrid start \<mapsto> None] {} 0 []
       = Some (e, r)"
    "(e = GoalFound) = (path r \<noteq> None)"
    "\<forall>p. path r = Some p \<longrightarrow>
       (\<exists>ws. isWalk ws \<and> hd ws = start \<and> goalTest (findCell start DOCK) (last ws) \<and>
          p = map (\<lambda>g. deserializeGrid (serializeGrid g) (length start) (cols start)) ws)"
    by blast
  have eq: "dfsSearch start maxNodes =
      dfsLoop start (findCell start DOCK) maxNodes [start] [serializeGrid start \<mapsto> None] {} 0 []"
    using False by (intro dfsSearch_loop) simp_all
  have "\<forall>p. path r = Some p \<longrightarrow>
       (\<exists>ws. solutionWalk start ws \<and> findCell start PROBE \<noteq> None \<and>
          p = map (\<lambda>g. deserializeGrid (serializeGrid g) (length start) (cols start)) ws)"
    using er(3) False unfolding solutionWalk_def by blast
  with er(1,2) show ?thesis unfolding eq by blast
qed

lemma bestFirstSearch_result:
  "\<exists>e r. bestFirstSearch start maxNodes = Some (e, r) \<and>
    ((e = GoalFound) = (path r \<noteq> None)) \<and>
    (\<forall>p. path r = Some p \<longrightarrow>
       (\<exists>ws. solutionWalk start ws \<and> findCell start PROBE \<noteq> None \<and>
          p = map (\<lambda>g. deserializeGrid (serializeGrid g) (length start) (cols start)) ws))"
proof (cases "findCell start DOCK")
  case None
  then show ?thesis by (simp add: bestFirstSearch_def failed_def)
next
  case (Some d)
  show ?thesis
  proof (cases "findCell start PROBE")
    case None
    then have "pushPQ d [] start = []" by (simp add: pushPQ_def)
    then show ?thesis
      using Some by (simp add: bestFirstSearch_def failed_def bestLoop.simps)
  next
    case probe: (Some p)
    have "frontierOk start [serializeGrid start \<mapsto> None] (map fst (pushPQ d [] start))"
      using pushPQ_grids [of d "[]" start] by (auto simp: frontierOk_def)
    then have "chained start [serializeGrid start \<mapsto> None] \<and>
        frontierOk start [serializeGrid start \<mapsto> None] (map fst (pushPQ d [] start))"
      by (simp add: chained_init)
    from bestLoop_result [OF this, of d maxNodes "{}" 0 "[]"]
    obtain e r where er:
      "bestLoop start d maxNodes (pushPQ d [] start) [serializeGrid start \<mapsto> None] {} 0 []
         = Some (e, r)"
      "(e = GoalFound) = (path r \<noteq> None)"
      "\<forall>p. path r = Some p \<longrightarrow>
         (\<exists>ws. isWalk ws \<and> hd ws = start \<and> goalTest (Some d) (last ws) \<and>
            p = map (\<lambda>g. deserializeGrid (serializeGrid g) (length start) (cols start)) ws)"
      by blast
    have eq: "bestFirstSearch start maxNodes =
        bestLoop start d maxNodes (pushPQ d [] start) [serializeGrid start \<mapsto> None] {} 0 []"
      using Some by (rule bestFirstSearch_loop)
    have "\<forall>p. path r = Some p \<longrightarrow>
         (\<exists>ws. solutionWalk start ws \<and> findCell start PROBE \<noteq> None \<and>
            p = map (\<lambda>g. deserializeGrid (serializeGrid g) (length start) (cols start)) ws)"
      using er(3) Some probe unfolding solutionWalk_def by auto
    with er(1,2) show ?thesis unfolding eq by blast
  qed
qed

lemma bfsSearch_result:
  "\<exists>e r. bfsSearch start maxNodes = Some (e, r) \<and>
    ((e = GoalFound) = (path r \<noteq> None)) \<and>
    (\<forall>p. path r = Some p \<longrightarrow>
       (\<exists>ws. solutionWalk start ws \<and> findCell start PROBE \<noteq> None \<and>
          p = map (\<lambda>g. deserializeGrid (serializeGrid g) (length start) (cols start)) ws \<and>
          (\<forall>vs. solutionWalk start vs \<longrightarrow> length ws \<le> length vs)))"
proof (cases "findCell start DOCK = None \<or> findCell start PROBE = None")
  case True
  then show ?thesis by (auto simp: bfsSearch_def failed_def)
next
  case False
  have "bfsInv start (findCell start DOCK) [start] [serializeGrid start \<mapsto> None]
      {serializeGrid start}"
    by (simp add: bfsInv_init)
  from bfsLoop_result [OF this, of maxNodes 0 "[]"]
  obtain e r where er:
    "bfsLoop start (findCell start DOCK) maxNodes [start] [serializeGrid start \<mapsto> None]
       {serializeGrid start} 0 [] = Some (e, r)"
    "(e = GoalFound) = (path r \<noteq> None)"
    "\<forall>p. path r = Some p \<longrightarrow>
       (\<exists>ws. isWalk ws \<and> hd ws = start \<and> goalTest (findCell start DOCK) (last ws) \<and>
          p = map (\<lambda>g. deserializeGrid (serializeGrid g) (length start) (cols start)) ws \<and>
          (\<forall>vs. isWalk vs \<and> hd vs = start \<and> goalTest (findCell start DOCK) (last vs) \<longrightarrow>
             length ws \<le> length vs))"
    by blast
  have eq: "bfsSearch start maxNodes =
      bfsLoop start (findCell start DOCK) maxNodes [start] [serializeGrid start \<mapsto> None]
        {serializeGrid start} 0 []"
    using False by (intro bfsSearch_loop) simp_all
  have "\<forall>p. path r = Some p \<longrightarrow>
       (\<exists>ws. solutionWalk start ws \<and> findCell start PROBE \<noteq> None \<and>
          p = map (\<lambda>g. deserializeGrid (serializeGrid g) (length start) (cols start)) ws \<and>
          (\<forall>vs. solutionWalk start vs \<longrightarrow> length ws \<le> length vs))"
    using er(3) False unfolding solutionWalk_def by blast
  with er(1,2) show ?thesis unfolding eq by blast
qed

subsection \<open>What a result reports\<close>

lemma dfsSearch_reports:
  "\<exists>e r. dfsSearch start maxNodes = Some (e, r) \<and> reports start maxNodes e r"
proof (cases "findCell start DOCK = None \<or> findCell start PROBE = None")
  case True
  then show ?thesis by (auto simp: dfsSearch_def failed_def reports_def)
next
  case False
  let ?loop = "dfsLoop start (findCell start DOCK) maxNodes [start]
      [serializeGrid start \<mapsto> None] {} 0 []"
  have eq: "dfsSearch start maxNodes = ?loop"
    using False by (intro dfsSearch_loop) simp_all
  from False obtain r0 c0 where "findCell start PROBE = Some (r0, c0)" by auto
  then have cell: "cellAt start r0 c0 \<noteq> None"
    using findCell_Some(1) by fastforce
  have "chained start [serializeGrid start \<mapsto> None] \<and>
      frontierOk start [serializeGrid start \<mapsto> None] [start]"
    by (simp add: chained_init frontierOk_def)
  from dfsLoop_result [OF cell this, of "findCell start DOCK" maxNodes "{}" 0 "[]"]
  obtain e r where er: "?loop = Some (e, r)" "(e = GoalFound) = (path r \<noteq> None)" "e \<noteq> NoStart"
    "\<forall>p. path r = Some p \<longrightarrow>
       (\<exists>ws. isWalk ws \<and> hd ws = start \<and> goalTest (findCell start DOCK) (last ws) \<and>
          p = map (\<lambda>g. deserializeGrid (serializeGrid g) (length start) (cols start)) ws)"
    by blast
  have "reports start maxNodes e r"
  proof (cases e)
    case NoStart
    with er(3) show ?thesis by simp
  next
    case GoalFound
    with er(2) obtain p where "path r = Some p" by auto
    with er(4) GoalFound show ?thesis
      unfolding reports_def solutionWalk_def by auto
  next
    case CeilingHit
    have "firstAbove maxNodes (nodesExpanded r)"
      using dfsLoop_ceiling [of start "[start]" maxNodes 0 "findCell start DOCK"
          "[serializeGrid start \<mapsto> None]" "{}" "[]"] er(1) CeilingHit
      by simp
    with er(2) CeilingHit show ?thesis by (simp add: reports_def)
  next
    case FrontierEmpty
    have "expandedClosed start (findCell start DOCK) {} [start]"
      by (simp add: expandedClosed_def)
    from dfsLoop_exhausted [OF sameShape_start this, of maxNodes "[serializeGrid start \<mapsto> None]"
        0 "[]"] er(1) FrontierEmpty
    have "\<forall>ws. \<not> solutionWalk start ws"
      unfolding solutionWalk_def by blast
    with er(2) FrontierEmpty show ?thesis by (simp add: reports_def)
  qed
  with er(1) show ?thesis unfolding eq by blast
qed

lemma bfsSearch_reports:
  "\<exists>e r. bfsSearch start maxNodes = Some (e, r) \<and> reports start maxNodes e r"
proof (cases "findCell start DOCK = None \<or> findCell start PROBE = None")
  case True
  then show ?thesis by (auto simp: bfsSearch_def failed_def reports_def)
next
  case False
  let ?loop = "bfsLoop start (findCell start DOCK) maxNodes [start]
      [serializeGrid start \<mapsto> None] {serializeGrid start} 0 []"
  have eq: "bfsSearch start maxNodes = ?loop"
    using False by (intro bfsSearch_loop) simp_all
  have "bfsInv start (findCell start DOCK) [start] [serializeGrid start \<mapsto> None]
      {serializeGrid start}"
    by (simp add: bfsInv_init)
  from bfsLoop_result [OF this, of maxNodes 0 "[]"]
  obtain e r where er: "?loop = Some (e, r)" "(e = GoalFound) = (path r \<noteq> None)" "e \<noteq> NoStart"
    "e = FrontierEmpty \<longrightarrow>
       (\<forall>ws. isWalk ws \<and> hd ws = start \<longrightarrow> \<not> goalTest (findCell start DOCK) (last ws))"
    "\<forall>p. path r = Some p \<longrightarrow>
       (\<exists>ws. isWalk ws \<and> hd ws = start \<and> goalTest (findCell start DOCK) (last ws) \<and>
          p = map (\<lambda>g. deserializeGrid (serializeGrid g) (length start) (cols start)) ws \<and>
          (\<forall>vs. isWalk vs \<and> hd vs = start \<and> goalTest (findCell start DOCK) (last vs) \<longrightarrow>
             length ws \<le> length vs))"
    by blast
  have "reports start maxNodes e r"
  proof (cases e)
    case NoStart
    with er(3) show ?thesis by simp
  next
    case GoalFound
    with er(2) obtain p where "path r = Some p" by auto
    with er(5) GoalFound show ?thesis
      unfolding reports_def solutionWalk_def by auto
  next
    case CeilingHit
    have "firstAbove maxNodes (nodesExpanded r)"
      using bfsLoop_ceiling [of start "[start]" maxNodes 0 "findCell start DOCK"
          "[serializeGrid start \<mapsto> None]" "{serializeGrid start}" "[]"] er(1) CeilingHit
      by simp
    with er(2) CeilingHit show ?thesis by (simp add: reports_def)
  next
    case FrontierEmpty
    with er(4) have "\<forall>ws. \<not> solutionWalk start ws"
      unfolding solutionWalk_def by blast
    with er(2) FrontierEmpty show ?thesis by (simp add: reports_def)
  qed
  with er(1) show ?thesis unfolding eq by blast
qed

lemma bestFirstSearch_reports:
  "\<exists>e r. bestFirstSearch start maxNodes = Some (e, r) \<and> reports start maxNodes e r"
proof (cases "findCell start DOCK")
  case None
  then show ?thesis by (simp add: bestFirstSearch_def failed_def reports_def)
next
  case (Some d)
  let ?loop = "bestLoop start d maxNodes (pushPQ d [] start) [serializeGrid start \<mapsto> None] {} 0 []"
  have eq: "bestFirstSearch start maxNodes = ?loop"
    using Some by (rule bestFirstSearch_loop)
  show ?thesis
  proof (cases "findCell start PROBE")
    case None
    then have "pushPQ d [] start = []" by (simp add: pushPQ_def)
    then have "?loop = Some (failed FrontierEmpty 0 [])"
      by (simp add: bestLoop.simps)
    moreover have "reports start maxNodes FrontierEmpty
        \<lparr>path = None, nodesExpanded = 0, visitedProbe = []\<rparr>"
      using no_probe_no_solution [OF None] by (simp add: reports_def)
    ultimately show ?thesis unfolding eq by (simp add: failed_def)
  next
    case probe: (Some p)
    then have pq: "map fst (pushPQ d [] start) = [start]"
      by (intro pushPQ_start) simp
    have "chained start [serializeGrid start \<mapsto> None] \<and>
        frontierOk start [serializeGrid start \<mapsto> None] (map fst (pushPQ d [] start))"
      unfolding pq by (simp add: chained_init frontierOk_def)
    from bestLoop_result [OF this, of d maxNodes "{}" 0 "[]"]
    obtain e r where er: "?loop = Some (e, r)" "(e = GoalFound) = (path r \<noteq> None)" "e \<noteq> NoStart"
      "\<forall>p. path r = Some p \<longrightarrow>
         (\<exists>ws. isWalk ws \<and> hd ws = start \<and> goalTest (Some d) (last ws) \<and>
            p = map (\<lambda>g. deserializeGrid (serializeGrid g) (length start) (cols start)) ws)"
      by blast
    have sh: "sameShape start (map fst (pushPQ d [] start))"
      unfolding pq by simp
    have "reports start maxNodes e r"
    proof (cases e)
      case NoStart
      with er(3) show ?thesis by simp
    next
      case GoalFound
      with er(2) obtain p where "path r = Some p" by auto
      with er(4) GoalFound Some show ?thesis
        unfolding reports_def solutionWalk_def by auto
    next
      case CeilingHit
      have "firstAbove maxNodes (nodesExpanded r)"
        using bestLoop_ceiling [OF sh, of maxNodes 0 d "[serializeGrid start \<mapsto> None]" "{}" "[]"]
          er(1) CeilingHit
        by simp
      with er(2) CeilingHit show ?thesis by (simp add: reports_def)
    next
      case FrontierEmpty
      have "expandedClosed start (Some d) {} (map fst (pushPQ d [] start))"
        unfolding pq by (simp add: expandedClosed_def)
      from bestLoop_exhausted [OF sh this, of maxNodes "[serializeGrid start \<mapsto> None]" 0 "[]"]
        er(1) FrontierEmpty Some
      have "\<forall>ws. \<not> solutionWalk start ws"
        unfolding solutionWalk_def by auto
      with er(2) FrontierEmpty show ?thesis by (simp add: reports_def)
    qed
    with er(1) show ?thesis unfolding eq by blast
  qed
qed

lemma reports_outcome:
  assumes "reports start maxNodes e r"
  shows "(\<exists>ws. solutionWalk start ws \<and>
        path r =
          Some (map (\<lambda>g. deserializeGrid (serializeGrid g) (length start) (cols start)) ws)) \<or>
    path r = None \<and>
      ((\<forall>ws. \<not> solutionWalk start ws) \<or> firstAbove maxNodes (nodesExpanded r))"
proof (cases e)
  case NoStart
  with assms have "path r = None"
      "findCell start PROBE = None \<or> findCell start DOCK = None"
    by (simp_all add: reports_def)
  then show ?thesis
    using no_probe_no_solution [of start] no_dock_no_solution [of start] by blast
next
  case GoalFound
  with assms show ?thesis by (simp add: reports_def)
next
  case CeilingHit
  with assms show ?thesis by (simp add: reports_def)
next
  case FrontierEmpty
  with assms show ?thesis by (simp add: reports_def)
qed

lemma dfsSearch_count:
  assumes "dfsSearch start maxNodes = Some (e, r)"
  shows "nodesExpanded r = length (visitedProbe r)"
proof (cases "findCell start DOCK = None \<or> findCell start PROBE = None")
  case True
  with assms show ?thesis by (auto simp: dfsSearch_def failed_def)
next
  case False
  have eq: "dfsSearch start maxNodes =
      dfsLoop start (findCell start DOCK) maxNodes [start] [serializeGrid start \<mapsto> None] {} 0 []"
    using False by (intro dfsSearch_loop) simp_all
  have "0 = length ([] :: pos list) \<and> withProbe [start]"
    using False by (simp add: withProbe_def)
  from dfsLoop_count [OF sameShape_start this] assms show ?thesis
    unfolding eq by blast
qed

lemma bfsSearch_count:
  assumes "bfsSearch start maxNodes = Some (e, r)"
  shows "nodesExpanded r = length (visitedProbe r)"
proof (cases "findCell start DOCK = None \<or> findCell start PROBE = None")
  case True
  with assms show ?thesis by (auto simp: bfsSearch_def failed_def)
next
  case False
  have eq: "bfsSearch start maxNodes =
      bfsLoop start (findCell start DOCK) maxNodes [start] [serializeGrid start \<mapsto> None]
        {serializeGrid start} 0 []"
    using False by (intro bfsSearch_loop) simp_all
  have "0 = length ([] :: pos list) \<and> withProbe [start]"
    using False by (simp add: withProbe_def)
  from bfsLoop_count [OF sameShape_start this] assms show ?thesis
    unfolding eq by blast
qed

lemma bestFirstSearch_count:
  assumes "bestFirstSearch start maxNodes = Some (e, r)"
  shows "nodesExpanded r = length (visitedProbe r)"
proof (cases "findCell start DOCK")
  case None
  with assms show ?thesis by (auto simp: bestFirstSearch_def failed_def)
next
  case (Some d)
  have eq: "bestFirstSearch start maxNodes =
      bestLoop start d maxNodes (pushPQ d [] start) [serializeGrid start \<mapsto> None] {} 0 []"
    using Some by (rule bestFirstSearch_loop)
  have sub: "set (map fst (pushPQ d [] start)) \<subseteq> set [start]"
    using pushPQ_grids [of d "[]" start] by simp
  then have sh: "sameShape start (map fst (pushPQ d [] start))"
    by (rule sameShape_subset) simp
  have "withProbe (map fst (pushPQ d [] start))"
  proof (cases "findCell start PROBE")
    case None
    then show ?thesis by (simp add: withProbe_def pushPQ_def)
  next
    case (Some p)
    then show ?thesis by (simp add: withProbe_def pushPQ_def)
  qed
  then have "0 = length ([] :: pos list) \<and> withProbe (map fst (pushPQ d [] start))"
    by simp
  from bestLoop_count [OF sh this] assms show ?thesis
    unfolding eq by blast
qed

text \<open>
  Claim C10, as amended. When a solver leaves its loop by the \<^verbatim>\<open>break\<close> of the ceiling
  test, the count of expanded states in its result is the first value of the counter that
  is greater than \<open>maxNodes\<close>, the counter being 1 when it is first tested. For a ceiling
  that is a non-negative integer this is \<open>maxNodes + 1\<close>. It is not for the other
  ceilings: the count is 1 for every negative ceiling, and 2 for the ceiling 3/2.
\<close>

theorem ceiling_count:
  "(dfsSearch start maxNodes = Some (CeilingHit, r) \<longrightarrow>
      dfsSolve start maxNodes = Some r \<and> firstAbove maxNodes (nodesExpanded r) \<and>
      (\<forall>n. maxNodes = Num (of_nat n) \<longrightarrow> nodesExpanded r = n + 1)) \<and>
   (bfsSearch start maxNodes = Some (CeilingHit, r) \<longrightarrow>
      bfsSolve start maxNodes = Some r \<and> firstAbove maxNodes (nodesExpanded r) \<and>
      (\<forall>n. maxNodes = Num (of_nat n) \<longrightarrow> nodesExpanded r = n + 1)) \<and>
   (bestFirstSearch start maxNodes = Some (CeilingHit, r) \<longrightarrow>
      bestFirstSolve start maxNodes = Some r \<and> firstAbove maxNodes (nodesExpanded r) \<and>
      (\<forall>n. maxNodes = Num (of_nat n) \<longrightarrow> nodesExpanded r = n + 1))"
proof (intro conjI impI allI)
  assume a: "dfsSearch start maxNodes = Some (CeilingHit, r)"
  then show "dfsSolve start maxNodes = Some r" by (simp add: dfsSolve_def)
  from dfsSearch_reports [of start maxNodes] a
  show f: "firstAbove maxNodes (nodesExpanded r)" by (auto simp: reports_def)
  fix n
  assume "maxNodes = Num (of_nat n)"
  with f show "nodesExpanded r = n + 1" by (simp add: firstAbove_nat)
next
  assume a: "bfsSearch start maxNodes = Some (CeilingHit, r)"
  then show "bfsSolve start maxNodes = Some r" by (simp add: bfsSolve_def)
  from bfsSearch_reports [of start maxNodes] a
  show f: "firstAbove maxNodes (nodesExpanded r)" by (auto simp: reports_def)
  fix n
  assume "maxNodes = Num (of_nat n)"
  with f show "nodesExpanded r = n + 1" by (simp add: firstAbove_nat)
next
  assume a: "bestFirstSearch start maxNodes = Some (CeilingHit, r)"
  then show "bestFirstSolve start maxNodes = Some r" by (simp add: bestFirstSolve_def)
  from bestFirstSearch_reports [of start maxNodes] a
  show f: "firstAbove maxNodes (nodesExpanded r)" by (auto simp: reports_def)
  fix n
  assume "maxNodes = Num (of_nat n)"
  with f show "nodesExpanded r = n + 1" by (simp add: firstAbove_nat)
qed

theorem ceiling_count_witness:
  "dfsSearch [[PROBE, EMPTY, EMPTY, DOCK]] (Num 1) =
     Some (CeilingHit, \<lparr>path = None, nodesExpanded = 2, visitedProbe = [(0, 0), (0, 1)]\<rparr>) \<and>
   bfsSearch [[PROBE, EMPTY, EMPTY, DOCK]] (Num 0) =
     Some (CeilingHit, \<lparr>path = None, nodesExpanded = 1, visitedProbe = [(0, 0)]\<rparr>) \<and>
   bestFirstSearch [[PROBE, EMPTY, EMPTY, DOCK]] (Num 2) =
     Some (CeilingHit,
       \<lparr>path = None, nodesExpanded = 3, visitedProbe = [(0, 0), (0, 1), (0, 2)]\<rparr>) \<and>
   Num 1 = Num (of_nat 1) \<and> Num 0 = Num (of_nat 0) \<and> Num 2 = Num (of_nat 2) \<and>
   nodesExpanded \<lparr>path = None, nodesExpanded = 2, visitedProbe = [(0, 0), (0, 1)]\<rparr> = 1 + 1 \<and>
   nodesExpanded \<lparr>path = None, nodesExpanded = 1, visitedProbe = [(0, 0)]\<rparr> = 0 + 1 \<and>
   nodesExpanded \<lparr>path = None, nodesExpanded = 3, visitedProbe = [(0, 0), (0, 1), (0, 2)]\<rparr>
     = 2 + 1 \<and>
   firstAbove (Num 1) 2"
proof -
  let ?g = "[[PROBE, EMPTY, EMPTY, DOCK]]"
  let ?r1 = "\<lparr>path = None, nodesExpanded = 1, visitedProbe = [(0, 0)]\<rparr>"
  let ?r2 = "\<lparr>path = None, nodesExpanded = 2, visitedProbe = [(0, 0), (0, 1)]\<rparr>"
  let ?r3 = "\<lparr>path = None, nodesExpanded = 3, visitedProbe = [(0, 0), (0, 1), (0, 2)]\<rparr>"
  have d: "dfsSearch ?g (Num 1) = Some (CeilingHit, ?r2)"
    by code_simp
  have b: "bfsSearch ?g (Num 0) = Some (CeilingHit, ?r1)"
    by code_simp
  have f: "bestFirstSearch ?g (Num 2) = Some (CeilingHit, ?r3)"
    by code_simp
  have n: "Num 1 = Num (of_nat 1)" "Num 0 = Num (of_nat 0)" "Num 2 = Num (of_nat 2)"
    by simp_all
  from ceiling_count [of ?g "Num 1" ?r2] d n(1)
  have c2: "nodesExpanded ?r2 = 1 + 1" and c2': "firstAbove (Num 1) (nodesExpanded ?r2)"
    by blast+
  from ceiling_count [of ?g "Num 0" ?r1] b n(2)
  have c1: "nodesExpanded ?r1 = 0 + 1" by blast
  from ceiling_count [of ?g "Num 2" ?r3] f n(3)
  have c3: "nodesExpanded ?r3 = 2 + 1" by blast
  from c2' have "firstAbove (Num 1) 2" by simp
  with d b f n c1 c2 c3 show ?thesis by blast
qed

theorem ceiling_count_counterexample:
  "dfsSearch [[PROBE, EMPTY, EMPTY, DOCK]] (Num (- 1)) =
     Some (CeilingHit, \<lparr>path = None, nodesExpanded = 1, visitedProbe = [(0, 0)]\<rparr>) \<and>
   bfsSearch [[PROBE, EMPTY, EMPTY, DOCK]] (Num (- 1)) =
     Some (CeilingHit, \<lparr>path = None, nodesExpanded = 1, visitedProbe = [(0, 0)]\<rparr>) \<and>
   bestFirstSearch [[PROBE, EMPTY, EMPTY, DOCK]] (Num (- 1)) =
     Some (CeilingHit, \<lparr>path = None, nodesExpanded = 1, visitedProbe = [(0, 0)]\<rparr>) \<and>
   rat_of_nat (nodesExpanded \<lparr>path = None, nodesExpanded = 1, visitedProbe = [(0, 0)]\<rparr>)
     \<noteq> - 1 + 1 \<and>
   dfsSearch [[PROBE, EMPTY, EMPTY, DOCK]] (Num (3 / 2)) =
     Some (CeilingHit, \<lparr>path = None, nodesExpanded = 2, visitedProbe = [(0, 0), (0, 1)]\<rparr>) \<and>
   rat_of_nat (nodesExpanded \<lparr>path = None, nodesExpanded = 2, visitedProbe = [(0, 0), (0, 1)]\<rparr>)
     \<noteq> 3 / 2 + 1"
proof (intro conjI)
  show "dfsSearch [[PROBE, EMPTY, EMPTY, DOCK]] (Num (- 1)) =
     Some (CeilingHit, \<lparr>path = None, nodesExpanded = 1, visitedProbe = [(0, 0)]\<rparr>)"
    by code_simp
  show "bfsSearch [[PROBE, EMPTY, EMPTY, DOCK]] (Num (- 1)) =
     Some (CeilingHit, \<lparr>path = None, nodesExpanded = 1, visitedProbe = [(0, 0)]\<rparr>)"
    by code_simp
  show "bestFirstSearch [[PROBE, EMPTY, EMPTY, DOCK]] (Num (- 1)) =
     Some (CeilingHit, \<lparr>path = None, nodesExpanded = 1, visitedProbe = [(0, 0)]\<rparr>)"
    by code_simp
  show "rat_of_nat (nodesExpanded \<lparr>path = None, nodesExpanded = 1, visitedProbe = [(0, 0)]\<rparr>)
     \<noteq> - 1 + 1"
    by simp
  show "dfsSearch [[PROBE, EMPTY, EMPTY, DOCK]] (Num (3 / 2)) =
     Some (CeilingHit, \<lparr>path = None, nodesExpanded = 2, visitedProbe = [(0, 0), (0, 1)]\<rparr>)"
    by code_simp
  show "rat_of_nat (nodesExpanded \<lparr>path = None, nodesExpanded = 2, visitedProbe = [(0, 0), (0, 1)]\<rparr>)
     \<noteq> 3 / 2 + 1"
    by simp
qed

text \<open>
  Claim C8. Each solver returns on every start grid and every ceiling, the ceilings that no
  count exceeds (\<^verbatim>\<open>Infinity\<close>, \<^verbatim>\<open>NaN\<close>) included: its loop ends by the goal branch,
  by the ceiling test or on an empty frontier (or the solver returns before the loop), and
  the path reconstruction of the goal branch ends too. What it returns is a result, not an
  error. After the goal branch the path of the result is a solution walk from the start
  grid, each grid rebuilt from its key. After the ceiling test the result has no path, and
  its count of expanded states is the first value of the counter above the ceiling, which
  is \<open>maxNodes + 1\<close> for a ceiling that is a non-negative integer. After an empty frontier
  the result has no path, and indeed no solution walk from the start grid exists. Before
  the loop the solver returns only when the start grid has no Probe or no Dock, with no
  path and no expansion. In every case the count of expanded states is the number of
  Probe positions that the result lists as visited. Read on the result alone: it holds a path that is a solution
  walk, or it holds no path, and then no solution walk exists or the count is the first
  one above the ceiling. The elapsed time of the result is not part of the model.
\<close>

theorem solvers_terminate:
  "(\<exists>e r. dfsSearch start maxNodes = Some (e, r) \<and> dfsSolve start maxNodes = Some r \<and>
      reports start maxNodes e r \<and> nodesExpanded r = length (visitedProbe r) \<and>
      (\<forall>n. e = CeilingHit \<and> maxNodes = Num (of_nat n) \<longrightarrow> nodesExpanded r = n + 1) \<and>
      ((\<exists>ws. solutionWalk start ws \<and>
          path r =
            Some (map (\<lambda>g. deserializeGrid (serializeGrid g) (length start) (cols start)) ws)) \<or>
       path r = None \<and>
         ((\<forall>ws. \<not> solutionWalk start ws) \<or> firstAbove maxNodes (nodesExpanded r)))) \<and>
   (\<exists>e r. bfsSearch start maxNodes = Some (e, r) \<and> bfsSolve start maxNodes = Some r \<and>
      reports start maxNodes e r \<and> nodesExpanded r = length (visitedProbe r) \<and>
      (\<forall>n. e = CeilingHit \<and> maxNodes = Num (of_nat n) \<longrightarrow> nodesExpanded r = n + 1) \<and>
      ((\<exists>ws. solutionWalk start ws \<and>
          path r =
            Some (map (\<lambda>g. deserializeGrid (serializeGrid g) (length start) (cols start)) ws)) \<or>
       path r = None \<and>
         ((\<forall>ws. \<not> solutionWalk start ws) \<or> firstAbove maxNodes (nodesExpanded r)))) \<and>
   (\<exists>e r. bestFirstSearch start maxNodes = Some (e, r) \<and> bestFirstSolve start maxNodes = Some r \<and>
      reports start maxNodes e r \<and> nodesExpanded r = length (visitedProbe r) \<and>
      (\<forall>n. e = CeilingHit \<and> maxNodes = Num (of_nat n) \<longrightarrow> nodesExpanded r = n + 1) \<and>
      ((\<exists>ws. solutionWalk start ws \<and>
          path r =
            Some (map (\<lambda>g. deserializeGrid (serializeGrid g) (length start) (cols start)) ws)) \<or>
       path r = None \<and>
         ((\<forall>ws. \<not> solutionWalk start ws) \<or> firstAbove maxNodes (nodesExpanded r))))"
proof -
  have count: "\<forall>n. e = CeilingHit \<and> maxNodes = Num (of_nat n) \<longrightarrow> nodesExpanded r = n + 1"
    if "reports start maxNodes e r" for e r
    using that by (auto simp: reports_def firstAbove_nat)
  show ?thesis
  proof (intro conjI)
    from dfsSearch_reports [of start maxNodes]
    obtain e r where er: "dfsSearch start maxNodes = Some (e, r)" "reports start maxNodes e r"
      by blast
    with count [of e r] reports_outcome [of start maxNodes e r] dfsSearch_count [OF er(1)]
    show "\<exists>e r. dfsSearch start maxNodes = Some (e, r) \<and> dfsSolve start maxNodes = Some r \<and>
      reports start maxNodes e r \<and> nodesExpanded r = length (visitedProbe r) \<and>
      (\<forall>n. e = CeilingHit \<and> maxNodes = Num (of_nat n) \<longrightarrow> nodesExpanded r = n + 1) \<and>
      ((\<exists>ws. solutionWalk start ws \<and>
          path r =
            Some (map (\<lambda>g. deserializeGrid (serializeGrid g) (length start) (cols start)) ws)) \<or>
       path r = None \<and>
         ((\<forall>ws. \<not> solutionWalk start ws) \<or> firstAbove maxNodes (nodesExpanded r)))"
      unfolding dfsSolve_def by (intro exI [of _ e] exI [of _ r]) simp
  next
    from bfsSearch_reports [of start maxNodes]
    obtain e r where er: "bfsSearch start maxNodes = Some (e, r)" "reports start maxNodes e r"
      by blast
    with count [of e r] reports_outcome [of start maxNodes e r] bfsSearch_count [OF er(1)]
    show "\<exists>e r. bfsSearch start maxNodes = Some (e, r) \<and> bfsSolve start maxNodes = Some r \<and>
      reports start maxNodes e r \<and> nodesExpanded r = length (visitedProbe r) \<and>
      (\<forall>n. e = CeilingHit \<and> maxNodes = Num (of_nat n) \<longrightarrow> nodesExpanded r = n + 1) \<and>
      ((\<exists>ws. solutionWalk start ws \<and>
          path r =
            Some (map (\<lambda>g. deserializeGrid (serializeGrid g) (length start) (cols start)) ws)) \<or>
       path r = None \<and>
         ((\<forall>ws. \<not> solutionWalk start ws) \<or> firstAbove maxNodes (nodesExpanded r)))"
      unfolding bfsSolve_def by (intro exI [of _ e] exI [of _ r]) simp
  next
    from bestFirstSearch_reports [of start maxNodes]
    obtain e r where er: "bestFirstSearch start maxNodes = Some (e, r)" "reports start maxNodes e r"
      by blast
    with count [of e r] reports_outcome [of start maxNodes e r] bestFirstSearch_count [OF er(1)]
    show "\<exists>e r. bestFirstSearch start maxNodes = Some (e, r) \<and> bestFirstSolve start maxNodes = Some r \<and>
      reports start maxNodes e r \<and> nodesExpanded r = length (visitedProbe r) \<and>
      (\<forall>n. e = CeilingHit \<and> maxNodes = Num (of_nat n) \<longrightarrow> nodesExpanded r = n + 1) \<and>
      ((\<exists>ws. solutionWalk start ws \<and>
          path r =
            Some (map (\<lambda>g. deserializeGrid (serializeGrid g) (length start) (cols start)) ws)) \<or>
       path r = None \<and>
         ((\<forall>ws. \<not> solutionWalk start ws) \<or> firstAbove maxNodes (nodesExpanded r)))"
      unfolding bestFirstSolve_def by (intro exI [of _ e] exI [of _ r]) simp
  qed
qed

theorem solvers_terminate_witness:
  "dfsSearch [[PROBE, EMPTY], [DOCK, EMPTY]] (Num 5) =
     Some (GoalFound,
       \<lparr>path = Some [[[PROBE, EMPTY], [DOCK, EMPTY]], [[EMPTY, EMPTY], [PROBE, EMPTY]]],
        nodesExpanded = 4, visitedProbe = [(0, 0), (0, 1), (1, 1), (1, 0)]\<rparr>) \<and>
   bfsSearch [[PROBE, EMPTY], [DOCK, EMPTY]] (Num 5) =
     Some (GoalFound,
       \<lparr>path = Some [[[PROBE, EMPTY], [DOCK, EMPTY]], [[EMPTY, EMPTY], [PROBE, EMPTY]]],
        nodesExpanded = 2, visitedProbe = [(0, 0), (1, 0)]\<rparr>) \<and>
   bestFirstSearch [[PROBE, EMPTY], [DOCK, EMPTY]] (Num 5) =
     Some (GoalFound,
       \<lparr>path = Some [[[PROBE, EMPTY], [DOCK, EMPTY]], [[EMPTY, EMPTY], [PROBE, EMPTY]]],
        nodesExpanded = 2, visitedProbe = [(0, 0), (1, 0)]\<rparr>) \<and>
   (\<exists>ws. solutionWalk [[PROBE, EMPTY], [DOCK, EMPTY]] ws \<and>
      [[[PROBE, EMPTY], [DOCK, EMPTY]], [[EMPTY, EMPTY], [PROBE, EMPTY]]] =
        map (\<lambda>g. deserializeGrid (serializeGrid g) 2 2) ws) \<and>
   dfsSearch [[PROBE, EMPTY, EMPTY, DOCK]] (Num 1) =
     Some (CeilingHit, \<lparr>path = None, nodesExpanded = 2, visitedProbe = [(0, 0), (0, 1)]\<rparr>) \<and>
   bfsSearch [[PROBE, EMPTY, EMPTY, DOCK]] (Num 1) =
     Some (CeilingHit, \<lparr>path = None, nodesExpanded = 2, visitedProbe = [(0, 0), (0, 1)]\<rparr>) \<and>
   bestFirstSearch [[PROBE, EMPTY, EMPTY, DOCK]] (Num 1) =
     Some (CeilingHit, \<lparr>path = None, nodesExpanded = 2, visitedProbe = [(0, 0), (0, 1)]\<rparr>) \<and>
   firstAbove (Num 1) 2 \<and>
   dfsSearch [[PROBE, EMPTY, WALL, DOCK]] NaN =
     Some (FrontierEmpty, \<lparr>path = None, nodesExpanded = 2, visitedProbe = [(0, 0), (0, 1)]\<rparr>) \<and>
   bfsSearch [[PROBE, EMPTY, WALL, DOCK]] PlusInfinity =
     Some (FrontierEmpty, \<lparr>path = None, nodesExpanded = 2, visitedProbe = [(0, 0), (0, 1)]\<rparr>) \<and>
   bestFirstSearch [[PROBE, EMPTY, WALL, DOCK]] NaN =
     Some (FrontierEmpty, \<lparr>path = None, nodesExpanded = 2, visitedProbe = [(0, 0), (0, 1)]\<rparr>) \<and>
   (\<forall>ws. \<not> solutionWalk [[PROBE, EMPTY, WALL, DOCK]] ws)"
proof -
  let ?A = "[[PROBE, EMPTY], [DOCK, EMPTY]]"
  let ?p = "[[[PROBE, EMPTY], [DOCK, EMPTY]], [[EMPTY, EMPTY], [PROBE, EMPTY]]]"
  let ?rd = "\<lparr>path = Some ?p, nodesExpanded = 4,
      visitedProbe = [(0, 0), (0, 1), (1, 1), (1, 0)]\<rparr>"
  let ?rb = "\<lparr>path = Some ?p, nodesExpanded = 2, visitedProbe = [(0, 0), (1, 0)]\<rparr>"
  let ?B = "[[PROBE, EMPTY, EMPTY, DOCK]]"
  let ?rc = "\<lparr>path = None, nodesExpanded = 2, visitedProbe = [(0, 0), (0, 1)]\<rparr>"
  let ?C = "[[PROBE, EMPTY, WALL, DOCK]]"
  have a1: "dfsSearch ?A (Num 5) = Some (GoalFound, ?rd)" by code_simp
  have a2: "bfsSearch ?A (Num 5) = Some (GoalFound, ?rb)" by code_simp
  have a3: "bestFirstSearch ?A (Num 5) = Some (GoalFound, ?rb)" by code_simp
  have b1: "dfsSearch ?B (Num 1) = Some (CeilingHit, ?rc)" by code_simp
  have b2: "bfsSearch ?B (Num 1) = Some (CeilingHit, ?rc)" by code_simp
  have b3: "bestFirstSearch ?B (Num 1) = Some (CeilingHit, ?rc)" by code_simp
  have c1: "dfsSearch ?C NaN = Some (FrontierEmpty, ?rc)" by code_simp
  have c2: "bfsSearch ?C PlusInfinity = Some (FrontierEmpty, ?rc)" by code_simp
  have c3: "bestFirstSearch ?C NaN = Some (FrontierEmpty, ?rc)" by code_simp
  have dims: "length ?A = 2" "cols ?A = 2" by (simp_all add: cols_def)
  from solvers_terminate [of ?A "Num 5"] a1 have "reports ?A (Num 5) GoalFound ?rd"
    by simp
  then have w1: "\<exists>ws. solutionWalk ?A ws \<and> ?p = map (\<lambda>g. deserializeGrid (serializeGrid g) 2 2) ws"
    unfolding reports_def dims by simp
  from solvers_terminate [of ?B "Num 1"] b2 have "reports ?B (Num 1) CeilingHit ?rc"
    by simp
  then have w2: "firstAbove (Num 1) 2"
    unfolding reports_def by simp
  from solvers_terminate [of ?C NaN] c3 have "reports ?C NaN FrontierEmpty ?rc"
    by simp
  then have w3: "\<forall>ws. \<not> solutionWalk ?C ws"
    unfolding reports_def by simp
  from a1 a2 a3 w1 b1 b2 b3 w2 c1 c2 c3 w3 show ?thesis by blast
qed

text \<open>
  Claim C1. A path that \<open>bfsSolve\<close> returns is a solution walk from the start grid (up to
  the rebuilding of each grid from its key), and no solution walk from the start grid has
  fewer moves; in particular no path that \<open>dfsSolve\<close> or \<open>bestFirstSolve\<close> returns on the
  same start grid, for any ceiling, has fewer moves.
\<close>

theorem bfs_shortest:
  assumes "bfsSolve start maxNodes = Some r" and "path r = Some p"
  shows "(\<exists>ws. solutionWalk start ws \<and>
        p = map (\<lambda>g. deserializeGrid (serializeGrid g) (length start) (cols start)) ws) \<and>
    (\<forall>vs. solutionWalk start vs \<longrightarrow> length p - 1 \<le> length vs - 1) \<and>
    (\<forall>m' r' p'. dfsSolve start m' = Some r' \<and> path r' = Some p' \<longrightarrow>
       length p - 1 \<le> length p' - 1) \<and>
    (\<forall>m' r' p'. bestFirstSolve start m' = Some r' \<and> path r' = Some p' \<longrightarrow>
       length p - 1 \<le> length p' - 1)"
proof -
  from bfsSearch_result [of start maxNodes] assms
  obtain ws where ws: "solutionWalk start ws"
      "p = map (\<lambda>g. deserializeGrid (serializeGrid g) (length start) (cols start)) ws"
      "\<forall>vs. solutionWalk start vs \<longrightarrow> length ws \<le> length vs"
    unfolding bfsSolve_def by force
  have least: "length p - 1 \<le> length vs - 1" if "solutionWalk start vs" for vs
    using ws(2,3) that by (simp add: diff_le_mono)
  have "length p - 1 \<le> length p' - 1"
    if "dfsSolve start m' = Some r' \<and> path r' = Some p'" for m' r' p'
  proof -
    from dfsSearch_result [of start m'] that
    obtain vs where "solutionWalk start vs"
        "p' = map (\<lambda>g. deserializeGrid (serializeGrid g) (length start) (cols start)) vs"
      unfolding dfsSolve_def by force
    with least [of vs] show ?thesis by simp
  qed
  moreover have "length p - 1 \<le> length p' - 1"
    if "bestFirstSolve start m' = Some r' \<and> path r' = Some p'" for m' r' p'
  proof -
    from bestFirstSearch_result [of start m'] that
    obtain vs where "solutionWalk start vs"
        "p' = map (\<lambda>g. deserializeGrid (serializeGrid g) (length start) (cols start)) vs"
      unfolding bestFirstSolve_def by force
    with least [of vs] show ?thesis by simp
  qed
  ultimately show ?thesis
    using ws(1,2) least by blast
qed

theorem bfs_shortest_witness:
  "bfsSolve [[PROBE, EMPTY], [DOCK, EMPTY]] (Num 5) =
     Some \<lparr>path = Some [[[PROBE, EMPTY], [DOCK, EMPTY]], [[EMPTY, EMPTY], [PROBE, EMPTY]]],
           nodesExpanded = 2, visitedProbe = [(0, 0), (1, 0)]\<rparr> \<and>
   solutionWalk [[PROBE, EMPTY], [DOCK, EMPTY]]
     [[[PROBE, EMPTY], [DOCK, EMPTY]], [[EMPTY, PROBE], [DOCK, EMPTY]],
      [[EMPTY, EMPTY], [DOCK, PROBE]], [[EMPTY, EMPTY], [PROBE, EMPTY]]] \<and>
   length [[[PROBE, EMPTY], [DOCK, EMPTY]], [[EMPTY, EMPTY], [PROBE, EMPTY]]] - 1 \<le>
   length [[[PROBE, EMPTY], [DOCK, EMPTY]], [[EMPTY, PROBE], [DOCK, EMPTY]],
      [[EMPTY, EMPTY], [DOCK, PROBE]], [[EMPTY, EMPTY], [PROBE, EMPTY]]] - 1"
proof -
  let ?start = "[[PROBE, EMPTY], [DOCK, EMPTY]]"
  let ?p = "[[[PROBE, EMPTY], [DOCK, EMPTY]], [[EMPTY, EMPTY], [PROBE, EMPTY]]]"
  let ?r = "\<lparr>path = Some ?p, nodesExpanded = 2, visitedProbe = [(0, 0), (1, 0)]\<rparr>"
  let ?vs = "[[[PROBE, EMPTY], [DOCK, EMPTY]], [[EMPTY, PROBE], [DOCK, EMPTY]],
      [[EMPTY, EMPTY], [DOCK, PROBE]], [[EMPTY, EMPTY], [PROBE, EMPTY]]]"
  have b: "bfsSolve ?start (Num 5) = Some ?r"
    by code_simp
  have p: "path ?r = Some ?p"
    by simp
  have v: "solutionWalk ?start ?vs"
    by code_simp
  from bfs_shortest [OF b p] v have "length ?p - 1 \<le> length ?vs - 1"
    by blast
  with b v show ?thesis by blast
qed

section \<open>The ends of a returned path\<close>

lemma findCell_rebuilt:
  assumes "0 < cols g"
  shows "findCell (map (\<lambda>row. if row = [] then [EMPTY] else row) g) PROBE = findCell g PROBE"
proof -
  let ?h = "map (\<lambda>row. if row = [] then [EMPTY] else row) g"
  from assms obtain row0 rest where g: "g = row0 # rest" "row0 \<noteq> []"
    by (cases g) (auto simp: cols_def)
  then have c: "cols ?h = cols g"
    by (simp add: cols_def)
  have pos: "positions ?h = positions g"
    by (simp add: positions_def c)
  have cell: "(cellAt ?h r c = Some PROBE) = (cellAt g r c = Some PROBE)" for r c
    by (auto simp: cellAt_def)
  show ?thesis
    unfolding findCell_def pos
    by (rule find_cong) (auto simp: cell)
qed

lemma isAtDock_rebuilt:
  assumes "map length g = map length start" and "findCell start PROBE \<noteq> None"
  shows "isAtDock (deserializeGrid (serializeGrid g) (length start) (cols start)) dockPos =
    isAtDock g dockPos"
proof -
  from assms(2) obtain r c where "findCell start PROBE = Some (r, c)" by auto
  then have "inBounds start r c" by (rule findCell_Some)
  then have cs: "0 < cols start" by (simp add: inBounds_def)
  have len: "length g = length start"
    using assms(1) by (rule map_eq_imp_length_eq)
  have "cols g = cols start"
    using assms(1) by (simp add: cols_shape)
  with cs have cg: "0 < cols g" by simp
  then have ne: "g \<noteq> []" by (auto simp: cols_def)
  show ?thesis
    unfolding isAtDock_def deserializeGrid_serializeGrid [OF ne len] findCell_rebuilt [OF cg]
    by simp
qed

lemma start_not_goal: "\<not> goalTest (findCell start DOCK) start"
proof
  assume "goalTest (findCell start DOCK) start"
  then obtain p d where pd: "findCell start PROBE = Some p" "findCell start DOCK = Some d"
      "fst p = fst d" "snd p = snd d"
    by (auto simp: goalTest_def isAtDock_def split: option.splits)
  obtain pr pc where p: "p = (pr, pc)" by (cases p)
  obtain dr' dc' where d: "d = (dr', dc')" by (cases d)
  from findCell_Some(1) [of start PROBE pr pc] findCell_Some(1) [of start DOCK dr' dc'] pd p d
  show False by simp
qed

lemma rebuilt_path_ends:
  assumes sw: "solutionWalk start ws" and pr: "findCell start PROBE \<noteq> None"
    and p: "p = map (\<lambda>g. deserializeGrid (serializeGrid g) (length start) (cols start)) ws"
  shows "p \<noteq> [] \<and> \<not> goalTest (findCell start DOCK) (hd p) \<and>
    goalTest (findCell start DOCK) (last p) \<and> \<not> isGoal (hd p) \<and> \<not> isGoal (last p)"
proof -
  from sw have w: "isWalk ws" "hd ws = start" "goalTest (findCell start DOCK) (last ws)"
    by (simp_all add: solutionWalk_def)
  then have ne: "ws \<noteq> []" by auto
  have same: "goalTest dp (deserializeGrid (serializeGrid g) (length start) (cols start)) =
      goalTest dp g" if "g \<in> set ws" for g dp
    using isWalk_shape [OF w(1) that] w(2) pr by (simp add: goalTest_def isAtDock_rebuilt)
  have "hd p = deserializeGrid (serializeGrid start) (length start) (cols start)"
    using ne w(2) by (simp add: p hd_map)
  moreover have "last p = deserializeGrid (serializeGrid (last ws)) (length start) (cols start)"
    using ne by (simp add: p last_map)
  moreover have "start \<in> set ws" "last ws \<in> set ws"
    using ne w(2) by auto
  ultimately show ?thesis
    using same w(3) start_not_goal [of start] ne by (simp add: p)
qed

text \<open>
  Claim C7, as amended. On a path that one of the three solvers returns, the goal test
  of the solvers, \<^verbatim>\<open>isGoal(g) || isAtDock(g, dockPos)\<close> with the dock position of the
  start grid, fails on the first element and holds on the last. The function
  \<open>isGoal\<close> alone, which looks for the Dock cell in the grid it is given, fails on both:
  no cell is Probe and Dock at once.
\<close>

theorem path_ends:
  assumes "dfsSolve start maxNodes = Some r \<or> bfsSolve start maxNodes = Some r \<or>
      bestFirstSolve start maxNodes = Some r"
    and "path r = Some p"
  shows "p \<noteq> [] \<and> \<not> goalTest (findCell start DOCK) (hd p) \<and>
    goalTest (findCell start DOCK) (last p) \<and> \<not> isGoal (hd p) \<and> \<not> isGoal (last p)"
proof -
  have "\<exists>ws. solutionWalk start ws \<and> findCell start PROBE \<noteq> None \<and>
      p = map (\<lambda>g. deserializeGrid (serializeGrid g) (length start) (cols start)) ws"
    using assms(1)
  proof (elim disjE)
    assume "dfsSolve start maxNodes = Some r"
    with dfsSearch_result [of start maxNodes] assms(2) show ?thesis
      unfolding dfsSolve_def by force
  next
    assume "bfsSolve start maxNodes = Some r"
    with bfsSearch_result [of start maxNodes] assms(2) show ?thesis
      unfolding bfsSolve_def by force
  next
    assume "bestFirstSolve start maxNodes = Some r"
    with bestFirstSearch_result [of start maxNodes] assms(2) show ?thesis
      unfolding bestFirstSolve_def by force
  qed
  then obtain ws where "solutionWalk start ws" "findCell start PROBE \<noteq> None"
      "p = map (\<lambda>g. deserializeGrid (serializeGrid g) (length start) (cols start)) ws"
    by blast
  then show ?thesis by (rule rebuilt_path_ends)
qed

theorem path_ends_witness:
  "bfsSolve [[PROBE, EMPTY], [DOCK, EMPTY]] (Num 5) =
     Some \<lparr>path = Some [[[PROBE, EMPTY], [DOCK, EMPTY]], [[EMPTY, EMPTY], [PROBE, EMPTY]]],
           nodesExpanded = 2, visitedProbe = [(0, 0), (1, 0)]\<rparr> \<and>
   \<not> goalTest (findCell [[PROBE, EMPTY], [DOCK, EMPTY]] DOCK) [[PROBE, EMPTY], [DOCK, EMPTY]] \<and>
   goalTest (findCell [[PROBE, EMPTY], [DOCK, EMPTY]] DOCK) [[EMPTY, EMPTY], [PROBE, EMPTY]]"
proof -
  let ?start = "[[PROBE, EMPTY], [DOCK, EMPTY]]"
  let ?p = "[[[PROBE, EMPTY], [DOCK, EMPTY]], [[EMPTY, EMPTY], [PROBE, EMPTY]]]"
  let ?r = "\<lparr>path = Some ?p, nodesExpanded = 2, visitedProbe = [(0, 0), (1, 0)]\<rparr>"
  have b: "bfsSolve ?start (Num 5) = Some ?r"
    by code_simp
  then have h: "dfsSolve ?start (Num 5) = Some ?r \<or> bfsSolve ?start (Num 5) = Some ?r \<or>
      bestFirstSolve ?start (Num 5) = Some ?r"
    by simp
  have p: "path ?r = Some ?p" by simp
  from path_ends [OF h p] b show ?thesis by simp
qed

theorem path_ends_counterexample:
  "bfsSolve [[PROBE, DOCK]] (Num 5) =
     Some \<lparr>path = Some [[[PROBE, DOCK]], [[EMPTY, PROBE]]],
           nodesExpanded = 2, visitedProbe = [(0, 0), (0, 1)]\<rparr> \<and>
   \<not> isGoal (last [[[PROBE, DOCK]], [[EMPTY, PROBE]]])"
  by code_simp

section \<open>Grids reachable from a start grid\<close>

lemma countCells_pos:
  assumes "cellAt g r c = Some v"
  shows "0 < countCells g v"
  using countCells_setCell [OF assms, of "if v = EMPTY then WALL else EMPTY" v]
  by (auto split: if_splits)

lemma countCells_unique:
  assumes one: "countCells g v = 1"
    and a: "cellAt g r c = Some v" and b: "cellAt g r' c' = Some v"
  shows "r = r' \<and> c = c'"
proof (rule ccontr)
  assume ne: "\<not> (r = r' \<and> c = c')"
  let ?w = "if v = EMPTY then WALL else EMPTY"
  have w: "?w \<noteq> v" by simp
  from countCells_setCell [OF a, of ?w v] one w
  have zero: "countCells (setCell g r c ?w) v = 0"
    by (simp split: if_splits)
  have "cellAt g r c \<noteq> None" using a by simp
  from cellAt_setCell [OF this, of ?w r' c'] ne b
  have "cellAt (setCell g r c ?w) r' c' = Some v" by auto
  from countCells_pos [OF this] zero show False by simp
qed

lemma findCell_unique:
  assumes one: "countCells g v = 1" and a: "cellAt g r c = Some v" and inb: "inBounds g r c"
  shows "findCell g v = Some (r, c)"
proof -
  have "(r, c) \<in> set (positions g)"
    using inb by (simp add: positions_iff)
  with a have "findCell g v \<noteq> None"
    unfolding findCell_def find_None_iff by auto
  then obtain r' c' where f: "findCell g v = Some (r', c')" by auto
  from findCell_Some(1) [OF f] have "cellAt g r' c' = Some v" .
  from countCells_unique [OF one a this] f show ?thesis by simp
qed

lemma moveGen_probe_count:
  "h \<in> set (moveGen g) \<Longrightarrow> countCells h PROBE = countCells g PROBE"
  unfolding moveGen_iff using moveDir_counts(1) by blast

lemma isWalk_probe_count:
  "isWalk ws \<Longrightarrow> g \<in> set ws \<Longrightarrow> countCells g PROBE = countCells (hd ws) PROBE"
proof (induction ws rule: isWalk.induct)
  case (3 a h gs)
  then show ?case using moveGen_probe_count [of h a] by auto
qed simp_all

lemma shape_inBounds:
  "map length g = map length h \<Longrightarrow> inBounds g r c = inBounds h r c"
  by (simp add: inBounds_def cols_shape) (metis length_map)

lemma dock_kept:
  assumes h: "h \<in> set (moveGen g)"
    and d: "cellAt g r c = Some DOCK"
  shows "cellAt h r c = Some DOCK \<or> cellAt h r c = Some PROBE"
proof -
  from h obtain pr pc dir where p: "findCell g PROBE = Some (pr, pc)"
      and m: "moveDir g (pr, pc) dir = Some h"
    unfolding moveGen_iff by blast
  show ?thesis
  proof (cases "(r, c) = (pr + dr dir, pc + dc dir)")
    case True
    with moveDir_cells(2) [OF p m] show ?thesis by simp
  next
    case False
    with moveDir_cells(4) [OF p m d] show ?thesis by simp
  qed
qed

lemma dock_free_walk:
  assumes one: "countCells start PROBE = 1"
    and dock: "findCell start DOCK = Some (r, c)"
    and w: "isWalk ws" "hd ws = start"
    and ng: "\<forall>g\<in>set (butlast ws). \<not> goalTest (Some (r, c)) g"
    and i: "i < length ws"
  shows "cellAt (ws ! i) r c = Some DOCK \<or> cellAt (ws ! i) r c = Some PROBE"
  using i
proof (induction i)
  case 0
  from w have "ws \<noteq> []" by auto
  then have "ws ! 0 = start" using w(2) by (simp add: hd_conv_nth)
  with findCell_Some(1) [OF dock] show ?case by simp
next
  case (Suc i)
  then have i: "i < length ws" "Suc i < length ws" by simp_all
  let ?g = "ws ! i"
  have g_in: "?g \<in> set ws" using i(1) by simp
  have "?g \<in> set (butlast ws)"
    using i(2) by (metis Suc_lessD in_set_conv_nth length_butlast less_diff_conv nth_butlast Suc_eq_plus1)
  with ng have notgoal: "\<not> goalTest (Some (r, c)) ?g" by blast
  have count: "countCells ?g PROBE = 1"
    using isWalk_probe_count [OF w(1) g_in] w(2) one by simp
  have shape: "map length ?g = map length start"
    using isWalk_shape [OF w(1) g_in] w(2) by simp
  have inb: "inBounds ?g r c"
    using findCell_Some(2) [OF dock] shape_inBounds [OF shape] by simp
  have "cellAt ?g r c \<noteq> Some PROBE"
  proof
    assume "cellAt ?g r c = Some PROBE"
    from findCell_unique [OF count this inb] have "isAtDock ?g (Some (r, c))"
      by (simp add: isAtDock_def)
    with notgoal show False by (simp add: goalTest_def)
  qed
  with Suc.IH i(1) have d: "cellAt ?g r c = Some DOCK" by simp
  have "ws ! Suc i \<in> set (moveGen ?g)"
    using w(1) i(2) by (rule isWalk_step)
  then show ?case using d by (rule dock_kept)
qed

text \<open>
  Claim C6, as amended. Along a walk of \<open>moveGen\<close> steps from a start grid with exactly one
  Probe cell, every grid has exactly one Probe cell. If moreover no grid before the last
  passes the goal test (the probe has not yet stood on the dock position of the start
  grid, as in every walk that the solvers follow), then no grid of the walk has an
  Obstacle on that position: it holds the Dock tag, or the probe.
\<close>

theorem reachable_invariants:
  assumes "countCells start PROBE = 1"
    and "findCell start DOCK = Some (r, c)"
    and "isWalk ws" and "hd ws = start"
  shows "(\<forall>g\<in>set ws. countCells g PROBE = 1) \<and>
    ((\<forall>g\<in>set (butlast ws). \<not> goalTest (Some (r, c)) g) \<longrightarrow>
       (\<forall>g\<in>set ws. cellAt g r c \<noteq> Some AST))"
proof (intro conjI ballI impI)
  fix g
  assume "g \<in> set ws"
  from isWalk_probe_count [OF assms(3) this] assms(1,4)
  show "countCells g PROBE = 1" by simp
next
  fix g
  assume ng: "\<forall>g\<in>set (butlast ws). \<not> goalTest (Some (r, c)) g" and "g \<in> set ws"
  then obtain i where "i < length ws" "g = ws ! i"
    by (auto simp: in_set_conv_nth)
  with dock_free_walk [OF assms ng, of i] show "cellAt g r c \<noteq> Some AST"
    by auto
qed

theorem reachable_invariants_witness:
  "countCells [[DOCK, EMPTY, PROBE], [AST, EMPTY, EMPTY]] PROBE = 1 \<and>
   findCell [[DOCK, EMPTY, PROBE], [AST, EMPTY, EMPTY]] DOCK = Some (0, 0) \<and>
   isWalk [[[DOCK, EMPTY, PROBE], [AST, EMPTY, EMPTY]], [[DOCK, PROBE, EMPTY], [AST, EMPTY, EMPTY]],
           [[PROBE, EMPTY, EMPTY], [AST, EMPTY, EMPTY]]] \<and>
   countCells [[PROBE, EMPTY, EMPTY], [AST, EMPTY, EMPTY]] PROBE = 1 \<and>
   cellAt [[PROBE, EMPTY, EMPTY], [AST, EMPTY, EMPTY]] 0 0 \<noteq> Some AST"
proof -
  let ?start = "[[DOCK, EMPTY, PROBE], [AST, EMPTY, EMPTY]]"
  let ?g1 = "[[DOCK, PROBE, EMPTY], [AST, EMPTY, EMPTY]]"
  let ?g2 = "[[PROBE, EMPTY, EMPTY], [AST, EMPTY, EMPTY]]"
  have a: "countCells ?start PROBE = 1" by code_simp
  have b: "findCell ?start DOCK = Some (0, 0)" by code_simp
  have c: "isWalk [?start, ?g1, ?g2]" by code_simp
  have d: "hd [?start, ?g1, ?g2] = ?start" by simp
  have e: "\<forall>g\<in>set (butlast [?start, ?g1, ?g2]). \<not> goalTest (Some (0, 0)) g"
    by code_simp
  from reachable_invariants [OF a b c d] e
  have "countCells ?g2 PROBE = 1" "cellAt ?g2 0 0 \<noteq> Some AST"
    by simp_all
  with a b c show ?thesis by simp
qed

theorem reachable_invariants_counterexample:
  "countCells [[DOCK, PROBE], [AST, EMPTY], [EMPTY, EMPTY]] PROBE = 1 \<and>
   countCells [[DOCK, PROBE], [AST, EMPTY], [EMPTY, EMPTY]] DOCK = 1 \<and>
   findCell [[DOCK, PROBE], [AST, EMPTY], [EMPTY, EMPTY]] DOCK = Some (0, 0) \<and>
   isWalk [[[DOCK, PROBE], [AST, EMPTY], [EMPTY, EMPTY]],
           [[PROBE, EMPTY], [AST, EMPTY], [EMPTY, EMPTY]],
           [[EMPTY, PROBE], [AST, EMPTY], [EMPTY, EMPTY]],
           [[EMPTY, EMPTY], [AST, PROBE], [EMPTY, EMPTY]],
           [[EMPTY, EMPTY], [AST, EMPTY], [EMPTY, PROBE]],
           [[EMPTY, EMPTY], [AST, EMPTY], [PROBE, EMPTY]],
           [[AST, EMPTY], [PROBE, EMPTY], [EMPTY, EMPTY]]] \<and>
   cellAt [[AST, EMPTY], [PROBE, EMPTY], [EMPTY, EMPTY]] 0 0 = Some AST"
  by code_simp

section \<open>Copy on write\<close>

lemma sliceRow_spec:
  "sliceRow s a = (s1, a') \<Longrightarrow>
   a' = nextAddr s \<and> nextAddr s1 = Suc (nextAddr s) \<and>
   rowAt s1 = (rowAt s)(nextAddr s := rowAt s a)"
  by (auto simp: sliceRow_def)

lemma cloneGridS_spec:
  assumes "cloneGridS s g = (s1, ng)"
  shows "nextAddr s1 = nextAddr s + length g"
    and "ng = [nextAddr s..<nextAddr s + length g]"
    and "\<forall>a<nextAddr s. rowAt s1 a = rowAt s a"
    and "(\<forall>a\<in>set g. a < nextAddr s) \<longrightarrow> readGrid s1 ng = readGrid s g"
proof -
  have "nextAddr s1 = nextAddr s + length g \<and> ng = [nextAddr s..<nextAddr s + length g] \<and>
    (\<forall>a<nextAddr s. rowAt s1 a = rowAt s a) \<and>
    ((\<forall>a\<in>set g. a < nextAddr s) \<longrightarrow> readGrid s1 ng = readGrid s g)"
    using assms
  proof (induction g arbitrary: s s1 ng)
    case Nil
    then show ?case by (simp add: readGrid_def)
  next
    case (Cons a as)
    obtain s' a' where sl: "sliceRow s a = (s', a')"
      by (cases "sliceRow s a")
    obtain s2 as' where cl: "cloneGridS s' as = (s2, as')"
      by (cases "cloneGridS s' as")
    from Cons.prems sl cl have res: "s1 = s2" "ng = a' # as'"
      by simp_all
    from sliceRow_spec [OF sl] have a': "a' = nextAddr s" and n': "nextAddr s' = Suc (nextAddr s)"
      and r': "rowAt s' = (rowAt s)(nextAddr s := rowAt s a)"
      by simp_all
    from Cons.IH [OF cl] have IH: "nextAddr s2 = nextAddr s' + length as"
        "as' = [nextAddr s'..<nextAddr s' + length as]"
        "\<forall>b<nextAddr s'. rowAt s2 b = rowAt s' b"
        "(\<forall>b\<in>set as. b < nextAddr s') \<longrightarrow> readGrid s2 as' = readGrid s' as"
      by blast+
    have c1: "nextAddr s1 = nextAddr s + length (a # as)"
      using IH(1) n' res(1) by simp
    have c2: "ng = [nextAddr s..<nextAddr s + length (a # as)]"
    proof -
      have "[nextAddr s..<nextAddr s + length (a # as)] =
          nextAddr s # [Suc (nextAddr s)..<Suc (nextAddr s) + length as]"
        by (simp add: upt_conv_Cons del: upt_Suc)
      then show ?thesis
        using IH(2) n' a' res(2) by (simp only:)
    qed
    have c3: "\<forall>b<nextAddr s. rowAt s1 b = rowAt s b"
      using IH(3) n' r' res(1) by simp
    have c4: "readGrid s1 ng = readGrid s (a # as)" if al: "\<forall>b\<in>set (a # as). b < nextAddr s"
    proof -
      have "rowAt s2 (nextAddr s) = rowAt s a"
        using IH(3) n' r' by simp
      moreover have "readGrid s2 as' = readGrid s' as"
        using IH(4) al n' by (auto intro: less_SucI)
      moreover have "readGrid s' as = readGrid s as"
        using al r' by (auto simp: readGrid_def)
      ultimately show ?thesis
        using res a' by (simp add: readGrid_def)
    qed
    from c1 c2 c3 c4 show ?case by blast
  qed
  then show "nextAddr s1 = nextAddr s + length g"
    and "ng = [nextAddr s..<nextAddr s + length g]"
    and "\<forall>a<nextAddr s. rowAt s1 a = rowAt s a"
    and "(\<forall>a\<in>set g. a < nextAddr s) \<longrightarrow> readGrid s1 ng = readGrid s g"
    by blast+
qed

lemma setCellS_next [simp]: "nextAddr (setCellS s ng r c v) = nextAddr s"
  by (simp add: setCellS_def)

lemma setCellS_frame: "a \<notin> set ng \<Longrightarrow> rowAt (setCellS s ng r c v) a = rowAt s a"
  by (auto simp: setCellS_def)

lemma setCellS_read:
  assumes "distinct ng"
  shows "readGrid (setCellS s ng r c v) ng = setCell (readGrid s ng) r c v"
proof (cases "nat r < length ng")
  case False
  then have "length (readGrid s ng) \<le> nat r" by (simp add: readGrid_def)
  then have "setCell (readGrid s ng) r c v = readGrid s ng"
    unfolding setCell_def by (rule list_update_beyond)
  with False show ?thesis by (simp add: setCellS_def)
next
  case True
  show ?thesis
  proof (rule nth_equalityI)
    show "length (readGrid (setCellS s ng r c v) ng) = length (setCell (readGrid s ng) r c v)"
      by (simp add: readGrid_def)
  next
    fix i
    assume "i < length (readGrid (setCellS s ng r c v) ng)"
    then have i: "i < length ng" by (simp add: readGrid_def)
    have "(ng ! i = ng ! nat r) = (i = nat r)"
      using assms i True by (simp add: nth_eq_iff_index_eq)
    then show "readGrid (setCellS s ng r c v) ng ! i = setCell (readGrid s ng) r c v ! i"
      using i True by (auto simp: readGrid_def setCellS_def setCell_def nth_list_update)
  qed
qed

lemma shiftChainS_Cons:
  "shiftChainS d (q # chain) ng s =
     setCellS (setCellS (shiftChainS d chain ng s) ng (fst q + dr d) (snd q + dc d) AST) ng
       (fst q) (snd q) EMPTY"
  by (simp add: shiftChainS_def split_beta)

lemma shiftChainS_next [simp]: "nextAddr (shiftChainS d chain ng s) = nextAddr s"
  by (induction chain) (simp_all add: shiftChainS_Cons, simp add: shiftChainS_def)

lemma shiftChainS_frame: "a \<notin> set ng \<Longrightarrow> rowAt (shiftChainS d chain ng s) a = rowAt s a"
proof (induction chain)
  case Nil
  then show ?case by (simp add: shiftChainS_def)
next
  case (Cons q chain)
  then show ?case by (simp add: shiftChainS_Cons setCellS_frame)
qed

lemma shiftChainS_read:
  "distinct ng \<Longrightarrow> readGrid (shiftChainS d chain ng s) ng = shiftChain d chain (readGrid s ng)"
proof (induction chain)
  case Nil
  then show ?case by (simp add: shiftChainS_def)
next
  case (Cons q chain)
  then show ?case by (simp add: shiftChainS_Cons shiftChain_Cons setCellS_read)
qed

text \<open>A clone followed by writes to the clone: what any such sequence of one iteration
  leaves behind.\<close>

lemma clone_then_write:
  assumes alloc: "\<forall>a\<in>set g. a < nextAddr s"
    and cl: "cloneGridS s g = (s1, ng)"
    and nx: "nextAddr s' = nextAddr s1"
    and fr: "\<And>a. a \<notin> set ng \<Longrightarrow> rowAt s' a = rowAt s1 a"
  shows "\<forall>a<nextAddr s. rowAt s' a = rowAt s a"
    and "nextAddr s \<le> nextAddr s'"
    and "ng = [nextAddr s..<nextAddr s']"
    and "distinct ng"
    and "readGrid s1 ng = readGrid s g"
proof -
  note c = cloneGridS_spec [OF cl]
  show ng: "ng = [nextAddr s..<nextAddr s']"
    using c(1,2) nx by simp
  show "nextAddr s \<le> nextAddr s'"
    using c(1) nx by simp
  show "distinct ng"
    unfolding ng by simp
  show "readGrid s1 ng = readGrid s g"
    using c(4) alloc by simp
  show "\<forall>a<nextAddr s. rowAt s' a = rowAt s a"
  proof (intro allI impI)
    fix a
    assume a: "a < nextAddr s"
    then have "a \<notin> set ng" unfolding ng by simp
    from fr [OF this] c(3) a show "rowAt s' a = rowAt s a" by simp
  qed
qed

lemma moveDirS_spec:
  assumes alloc: "\<forall>a\<in>set g. a < nextAddr s"
    and m: "moveDirS s g probe d = (s', res)"
  shows "(\<forall>a<nextAddr s. rowAt s' a = rowAt s a) \<and> nextAddr s \<le> nextAddr s' \<and>
    map_option (readGrid s') res = moveDir (readGrid s g) probe d \<and>
    (\<forall>ng. res = Some ng \<longrightarrow> ng = [nextAddr s..<nextAddr s'])"
proof -
  obtain pr pc where probe: "probe = (pr, pc)" by (cases probe)
  let ?gv = "readGrid s g"
  let ?nr = "pr + dr d" and ?nc = "pc + dc d"
  obtain s1 ng where cl: "cloneGridS s g = (s1, ng)"
    by (cases "cloneGridS s g")
  obtain chain cr cc where sc: "scanChain ?gv d [] ?nr ?nc = (chain, cr, cc)"
    by (cases "scanChain ?gv d [] ?nr ?nc")
  let ?step = "setCellS (setCellS s1 ng pr pc EMPTY) ng ?nr ?nc PROBE"
  let ?push = "setCellS (shiftChainS d chain ng (setCellS s1 ng pr pc EMPTY)) ng ?nr ?nc PROBE"
  note w1 = clone_then_write [OF alloc cl, of ?step]
  note w2 = clone_then_write [OF alloc cl, of ?push]
  have f1: "a \<notin> set ng \<Longrightarrow> rowAt ?step a = rowAt s1 a" for a
    by (simp add: setCellS_frame)
  have f2: "a \<notin> set ng \<Longrightarrow> rowAt ?push a = rowAt s1 a" for a
    by (simp add: setCellS_frame shiftChainS_frame)
  have n1: "nextAddr ?step = nextAddr s1" and n2: "nextAddr ?push = nextAddr s1"
    by simp_all
  have dist: "distinct ng"
    using w1(4) [OF n1 f1] .
  have rd: "readGrid s1 ng = ?gv"
    using w1(5) [OF n1 f1] .
  have r1: "readGrid ?step ng = setCell (setCell ?gv pr pc EMPTY) ?nr ?nc PROBE"
    using dist rd by (simp add: setCellS_read)
  have r2: "readGrid ?push ng =
      setCell (shiftChain d chain (setCell ?gv pr pc EMPTY)) ?nr ?nc PROBE"
    using dist rd by (simp add: setCellS_read shiftChainS_read)
  consider (none) "s' = s" "res = None" "moveDir ?gv probe d = None"
    | (step) "s' = ?step" "res = Some ng"
        "moveDir ?gv probe d = Some (setCell (setCell ?gv pr pc EMPTY) ?nr ?nc PROBE)"
    | (push) "s' = ?push" "res = Some ng"
        "moveDir ?gv probe d =
           Some (setCell (shiftChain d chain (setCell ?gv pr pc EMPTY)) ?nr ?nc PROBE)"
    using m unfolding moveDirS_def moveDir_def probe Let_def
    by (auto simp: cl sc split: if_splits)
  then show ?thesis
  proof cases
    case none
    then show ?thesis by simp
  next
    case step
    show ?thesis
      unfolding step using w1(1,2,3) [OF n1 f1] r1 by simp
  next
    case push
    show ?thesis
      unfolding push using w2(1,2,3) [OF n2 f2] r2 by simp
  qed
qed

lemma readGrid_frame:
  "\<forall>a\<in>set x. rowAt s1 a = rowAt s a \<Longrightarrow> readGrid s1 x = readGrid s x"
  by (simp add: readGrid_def)

lemma moveGenS_fold:
  assumes alloc: "\<forall>a\<in>set g. a < nextAddr s0"
    and inv: "nextAddr s0 \<le> nextAddr s" "\<forall>a<nextAddr s0. rowAt s a = rowAt s0 a"
      "set (concat res) \<subseteq> {nextAddr s0..<nextAddr s}" "distinct (concat res)"
    and f: "foldl (pushDirS g probe) (s, res) ds = (s', res')"
  shows "nextAddr s0 \<le> nextAddr s' \<and> (\<forall>a<nextAddr s0. rowAt s' a = rowAt s0 a) \<and>
    set (concat res') \<subseteq> {nextAddr s0..<nextAddr s'} \<and> distinct (concat res') \<and>
    map (readGrid s') res' =
      map (readGrid s) res @ List.map_filter (moveDir (readGrid s0 g) probe) ds"
  using inv f
proof (induction ds arbitrary: s res)
  case Nil
  then show ?case by (simp add: List.map_filter_simps)
next
  case (Cons d ds)
  obtain s1 out where m: "moveDirS s g probe d = (s1, out)"
    by (cases "moveDirS s g probe d")
  have alloc_s: "\<forall>a\<in>set g. a < nextAddr s"
    using alloc Cons.prems(1) by auto
  from moveDirS_spec [OF alloc_s m]
  have fr: "\<forall>a<nextAddr s. rowAt s1 a = rowAt s a"
    and nx: "nextAddr s \<le> nextAddr s1"
    and rd: "map_option (readGrid s1) out = moveDir (readGrid s g) probe d"
    and fresh: "\<forall>ng. out = Some ng \<longrightarrow> ng = [nextAddr s..<nextAddr s1]"
    by blast+
  have same_g: "readGrid s g = readGrid s0 g"
    using alloc Cons.prems(2) by (intro readGrid_frame) auto
  have old: "map (readGrid s1) res = map (readGrid s) res"
  proof (rule map_cong [OF refl])
    fix x
    assume "x \<in> set res"
    then have "set x \<subseteq> {nextAddr s0..<nextAddr s}"
      using Cons.prems(3) by auto
    then show "readGrid s1 x = readGrid s x"
      using fr by (intro readGrid_frame) auto
  qed
  define res1 where "res1 = (case out of None \<Rightarrow> res | Some ng \<Rightarrow> res @ [ng])"
  have step: "pushDirS g probe (s, res) d = (s1, res1)"
    by (simp add: pushDirS_def m res1_def split: option.splits)
  have i1: "nextAddr s0 \<le> nextAddr s1"
    using Cons.prems(1) nx by simp
  have i2: "\<forall>a<nextAddr s0. rowAt s1 a = rowAt s0 a"
    using Cons.prems(1,2) fr by auto
  have i3: "set (concat res1) \<subseteq> {nextAddr s0..<nextAddr s1}"
    using Cons.prems(1,3) nx fresh by (auto simp: res1_def split: option.splits)
  have i4: "distinct (concat res1)"
    using Cons.prems(3,4) fresh by (fastforce simp: res1_def split: option.splits)
  have i5: "map (readGrid s1) res1 =
      map (readGrid s) res @ List.map_filter (moveDir (readGrid s0 g) probe) [d]"
  proof (cases out)
    case None
    with rd same_g have "moveDir (readGrid s0 g) probe d = None" by simp
    with None old show ?thesis by (simp add: res1_def List.map_filter_simps)
  next
    case (Some ng)
    with rd same_g have "moveDir (readGrid s0 g) probe d = Some (readGrid s1 ng)" by simp
    with Some old show ?thesis by (simp add: res1_def List.map_filter_simps)
  qed
  have "foldl (pushDirS g probe) (s1, res1) ds = (s', res')"
    using Cons.prems(5) by (simp only: foldl_Cons step)
  from Cons.IH [OF i1 i2 i3 i4 this] i5 show ?case
    by (simp add: List.map_filter_simps split: option.splits)
qed

text \<open>
  Claim C9. On the store, \<open>moveGen\<close> changes no row that existed before the call, so the
  grid it was given reads as before; the rows of every successor are addresses that did
  not exist before the call, no row is shared between the grid and a successor, between
  two successors or within one successor; and the successors read from the final store
  are the successors of the value-level \<open>moveGen\<close>.
\<close>

theorem moveGen_copy_on_write:
  assumes "\<forall>a\<in>set g. a < nextAddr s" and "moveGenS s g = (s', res)"
  shows "(\<forall>a<nextAddr s. rowAt s' a = rowAt s a) \<and>
    readGrid s' g = readGrid s g \<and>
    (\<forall>ng\<in>set res. set ng \<inter> set g = {} \<and> (\<forall>a\<in>set ng. nextAddr s \<le> a)) \<and>
    distinct (concat res) \<and>
    map (readGrid s') res = moveGen (readGrid s g)"
proof (cases "findCell (readGrid s g) PROBE")
  case None
  with assms(2) have "s' = s" "res = []" by (simp_all add: moveGenS_def)
  with None show ?thesis by (simp add: moveGen_def)
next
  case (Some probe)
  with assms(2) have f: "foldl (pushDirS g probe) (s, []) DIRS = (s', res)"
    by (simp add: moveGenS_def)
  from moveGenS_fold [OF assms(1) _ _ _ _ f]
  have r: "nextAddr s \<le> nextAddr s'" "\<forall>a<nextAddr s. rowAt s' a = rowAt s a"
    "set (concat res) \<subseteq> {nextAddr s..<nextAddr s'}" "distinct (concat res)"
    "map (readGrid s') res = List.map_filter (moveDir (readGrid s g) probe) DIRS"
    by simp_all
  have "readGrid s' g = readGrid s g"
    using assms(1) r(2) by (intro readGrid_frame) auto
  moreover have "set ng \<inter> set g = {} \<and> (\<forall>a\<in>set ng. nextAddr s \<le> a)" if "ng \<in> set res" for ng
  proof -
    from that r(3) have "set ng \<subseteq> {nextAddr s..<nextAddr s'}" by auto
    with assms(1) show ?thesis by fastforce
  qed
  ultimately show ?thesis
    using r(2,4,5) Some by (simp add: moveGen_def)
qed

theorem moveGen_copy_on_write_witness:
  "list_all (\<lambda>a. a < nextAddr
      \<lparr>rowAt = (\<lambda>a. if a = 0 then [PROBE, AST, EMPTY] else [EMPTY, EMPTY, DOCK]),
       nextAddr = 2\<rparr>) [0, 1] \<and>
   snd (moveGenS \<lparr>rowAt = (\<lambda>a. if a = 0 then [PROBE, AST, EMPTY] else [EMPTY, EMPTY, DOCK]),
                    nextAddr = 2\<rparr> [0, 1]) = [[2, 3], [4, 5]] \<and>
   readGrid (fst (moveGenS \<lparr>rowAt = (\<lambda>a. if a = 0 then [PROBE, AST, EMPTY] else [EMPTY, EMPTY, DOCK]),
                    nextAddr = 2\<rparr> [0, 1])) [0, 1] = [[PROBE, AST, EMPTY], [EMPTY, EMPTY, DOCK]] \<and>
   map (readGrid (fst (moveGenS \<lparr>rowAt = (\<lambda>a. if a = 0 then [PROBE, AST, EMPTY] else [EMPTY, EMPTY, DOCK]),
                    nextAddr = 2\<rparr> [0, 1]))) [[2, 3], [4, 5]] =
     moveGen [[PROBE, AST, EMPTY], [EMPTY, EMPTY, DOCK]]"
proof -
  let ?s = "\<lparr>rowAt = (\<lambda>a. if a = 0 then [PROBE, AST, EMPTY] else [EMPTY, EMPTY, DOCK]),
            nextAddr = (2::nat)\<rparr>"
  have a: "\<forall>a\<in>set [0, 1]. a < nextAddr ?s" by simp
  have m: "moveGenS ?s [0, 1] = (fst (moveGenS ?s [0, 1]), snd (moveGenS ?s [0, 1]))"
    by simp
  have r: "snd (moveGenS ?s [0, 1]) = [[2, 3], [4, 5]]"
    by code_simp
  have g: "readGrid ?s [0, 1] = [[PROBE, AST, EMPTY], [EMPTY, EMPTY, DOCK]]"
    by (simp add: readGrid_def)
  from moveGen_copy_on_write [OF a m] a r g show ?thesis
    by (simp add: list_all_iff)
qed

end
